theory Spec2Isabelle
  imports Main
begin

section \<open>Values of the wiki API and Python's reading of them\<close>

text \<open>
  \<^verbatim>\<open>scripts/generateMonsters.py\<close> reads JSON from the Semantic MediaWiki \<^verbatim>\<open>ask\<close> API.
  A parsed JSON value is \<^verbatim>\<open>None\<close>, a bool, a number, a \<^verbatim>\<open>str\<close>, a list or a dict.
  Numbers are modelled as (unbounded) integers, which is what the monster properties
  hold; a dict is an association list read with \<open>map_of\<close>. Python's \<^verbatim>\<open>None\<close> is
  \<open>JNull\<close>.
\<close>

datatype json =
    JNull
  | JBool bool
  | JInt int
  | JStr string
  | JArr "json list"
  | JObj "(string \<times> json) list"

text \<open>The exceptions the script can raise; none of them is caught, except the
  \<^verbatim>\<open>IndexError\<close> of the version split.\<close>

datatype error =
    KeyError string
  | IndexError
  | TypeError
  | AttributeError
  | RequestException
  | OSError

definition bnd :: "error + 'a \<Rightarrow> ('a \<Rightarrow> error + 'b) \<Rightarrow> error + 'b" where
  "bnd r f = (case r of Inl e \<Rightarrow> Inl e | Inr x \<Rightarrow> f x)"

text \<open>A list literal \<^verbatim>\<open>[e1, e2, ...]\<close> evaluates its elements left to right and
  raises the first exception met.\<close>

fun map_res :: "('a \<Rightarrow> error + 'b) \<Rightarrow> 'a list \<Rightarrow> error + 'b list" where
  "map_res f [] = Inr []"
| "map_res f (x # xs) = bnd (f x) (\<lambda>y. bnd (map_res f xs) (\<lambda>ys. Inr (y # ys)))"

text \<open>Truth value testing: \<^verbatim>\<open>None\<close>, \<^verbatim>\<open>False\<close>, \<^verbatim>\<open>0\<close> and the empty
  \<^verbatim>\<open>str\<close>, list and dict are false.\<close>

fun truthy :: "json \<Rightarrow> bool" where
  "truthy JNull = False"
| "truthy (JBool b) = b"
| "truthy (JInt n) = (n \<noteq> 0)"
| "truthy (JStr s) = (s \<noteq> [])"
| "truthy (JArr xs) = (xs \<noteq> [])"
| "truthy (JObj kvs) = (kvs \<noteq> [])"

text \<open>\<^verbatim>\<open>a or b\<close> on values.\<close>

definition py_or :: "json \<Rightarrow> json \<Rightarrow> json" where
  "py_or a b = (if truthy a then a else b)"

text \<open>\<^verbatim>\<open>x == n\<close> for an \<^verbatim>\<open>int\<close> literal \<open>n\<close>: a bool compares as 0 or 1, and a
  \<^verbatim>\<open>str\<close>, list, dict or \<^verbatim>\<open>None\<close> is never equal to a number.\<close>

fun py_eq_int :: "json \<Rightarrow> int \<Rightarrow> bool" where
  "py_eq_int (JInt m) n = (m = n)"
| "py_eq_int (JBool b) n = ((if b then 1 else 0) = n)"
| "py_eq_int _ n = False"

text \<open>\<^verbatim>\<open>d[key]\<close> on a dict, \<^verbatim>\<open>xs[i]\<close> on a list, and \<^verbatim>\<open>c[key]\<close> on a parsed JSON
  value with a \<^verbatim>\<open>str\<close> key: only a dict can be subscripted so.\<close>

definition getitem :: "(string \<rightharpoonup> 'a) \<Rightarrow> string \<Rightarrow> error + 'a" where
  "getitem d key = (case d key of None \<Rightarrow> Inl (KeyError key) | Some x \<Rightarrow> Inr x)"

definition list_getitem :: "'a list \<Rightarrow> nat \<Rightarrow> error + 'a" where
  "list_getitem xs i = (if i < length xs then Inr (xs ! i) else Inl IndexError)"

fun subscript :: "json \<Rightarrow> string \<Rightarrow> error + json" where
  "subscript (JObj kvs) key =
     (case map_of kvs key of None \<Rightarrow> Inl (KeyError key) | Some x \<Rightarrow> Inr x)"
| "subscript _ key = Inl TypeError"


section \<open>String operations of the script\<close>

text \<open>\<^verbatim>\<open>s.startswith(p)\<close>, and \<^verbatim>\<open>sub in s\<close>.\<close>

fun starts_with :: "string \<Rightarrow> string \<Rightarrow> bool" where
  "starts_with s [] = True"
| "starts_with [] (p # ps) = False"
| "starts_with (c # cs) (p # ps) = (c = p \<and> starts_with cs ps)"

fun py_in :: "string \<Rightarrow> string \<Rightarrow> bool" where
  "py_in sub [] = (sub = [])"
| "py_in sub (c # cs) = (starts_with (c # cs) sub \<or> py_in sub cs)"

text \<open>\<^verbatim>\<open>k.split(sep, 1)\<close> cuts at the first separator, \<^verbatim>\<open>k.rsplit(sep, 1)\<close> at the
  last one; without a separator both return \<^verbatim>\<open>[k]\<close>.\<close>

definition py_split1 :: "char \<Rightarrow> string \<Rightarrow> string list" where
  "py_split1 sep s =
     (if sep \<in> set s
      then [takeWhile (\<lambda>c. c \<noteq> sep) s, tl (dropWhile (\<lambda>c. c \<noteq> sep) s)]
      else [s])"

definition py_rsplit1 :: "char \<Rightarrow> string \<Rightarrow> string list" where
  "py_rsplit1 sep s =
     (if sep \<in> set s
      then [rev (tl (dropWhile (\<lambda>c. c \<noteq> sep) (rev s))), rev (takeWhile (\<lambda>c. c \<noteq> sep) (rev s))]
      else [s])"

text \<open>\<^verbatim>\<open>s.replace(old, new)\<close>: every occurrence of \<open>old\<close>, found left to right without
  overlap, is replaced. With an empty \<open>old\<close>, \<open>new\<close> is put before every character and
  at the end.\<close>

fun replace_scan :: "string \<Rightarrow> string \<Rightarrow> string \<Rightarrow> string" where
  "replace_scan [] old new = []"
| "replace_scan (c # cs) old new =
     (if old \<noteq> [] \<and> starts_with (c # cs) old
      then new @ replace_scan (drop (length old) (c # cs)) old new
      else c # replace_scan cs old new)"

definition py_replace :: "string \<Rightarrow> string \<Rightarrow> string \<Rightarrow> string" where
  "py_replace s old new =
     (if old = [] then new @ concat (map (\<lambda>c. c # new) s) else replace_scan s old new)"

text \<open>\<^verbatim>\<open>str.lower\<close>, on the ASCII letters; a \<open>char\<close> is a byte, and the bytes of a
  character beyond ASCII are left as they are.\<close>

definition lower_char :: "char \<Rightarrow> char" where
  "lower_char c =
     (case map_of (zip ''ABCDEFGHIJKLMNOPQRSTUVWXYZ'' ''abcdefghijklmnopqrstuvwxyz'') c of
        Some l \<Rightarrow> l
      | None \<Rightarrow> c)"

definition py_lower :: "string \<Rightarrow> string" where
  "py_lower s = map lower_char s"

text \<open>\<^verbatim>\<open>re.match("^([A-z]*):", k)\<close>. The class \<^verbatim>\<open>[A-z]\<close> is the code points 65 to 122:
  the letters and the six characters between \<^verbatim>\<open>Z\<close> and \<^verbatim>\<open>a\<close>. The colon (58) is not
  in the class, so the greedy run of class characters is the only candidate for the
  group, and the pattern matches exactly when a colon follows that run.\<close>

definition in_A_z :: "char \<Rightarrow> bool" where
  "in_A_z c = (65 \<le> (of_char c :: nat) \<and> (of_char c :: nat) \<le> 122)"

definition re_match_namespace :: "string \<Rightarrow> bool" where
  "re_match_namespace k =
     (case dropWhile in_A_z k of [] \<Rightarrow> False | c # _ \<Rightarrow> c = CHR '':'')"

text \<open>The spec's wording of the namespace pattern, \<^verbatim>\<open>^[A-Za-z]+:\<close>, speaks of the
  ASCII letters only.\<close>

definition is_alpha :: "char \<Rightarrow> bool" where
  "is_alpha c =
     ((65 \<le> (of_char c :: nat) \<and> (of_char c :: nat) \<le> 90) \<or>
      (97 \<le> (of_char c :: nat) \<and> (of_char c :: nat) \<le> 122))"

text \<open>The spec's wording of the image name: the value with a leading \<^verbatim>\<open>File:\<close>
  stripped, and nothing else changed.\<close>

definition strip_leading_prefix :: "string \<Rightarrow> string \<Rightarrow> string" where
  "strip_leading_prefix p s = (if starts_with s p then drop (length p) s else s)"


section \<open>The record normalizer (the first loop of \<^verbatim>\<open>main\<close>)\<close>

type_synonym printouts_dict = "string \<rightharpoonup> json list"

text \<open>A raw record \<open>v\<close> of the API: the script reads nothing of it but
  \<^verbatim>\<open>v['printouts']\<close>, after the test \<^verbatim>\<open>'printouts' not in v\<close>.\<close>

record raw_record =
  printouts :: "printouts_dict option"

record monster =
  id_field :: json
  name :: string
  version :: string
  image_field :: string
  level :: json
  speed :: json
  size_field :: json
  skills :: "json list"
  offensive :: "json list"
  defensive :: "json list"
  attributes :: "json list"

fun get_printout_value :: "json list \<Rightarrow> json" where
  "get_printout_value [] = JNull"
| "get_printout_value (x # _) = x"

text \<open>\<^verbatim>\<open>has_category\<close> returns the first element whose \<^verbatim>\<open>fulltext\<close> is the category's
  title, or \<^verbatim>\<open>None\<close>; the generator stops at the first match, so later elements are
  not read.\<close>

fun has_category :: "json list \<Rightarrow> string \<Rightarrow> error + json" where
  "has_category [] category = Inr JNull"
| "has_category (c # cs) category =
     bnd (subscript c ''fulltext'')
       (\<lambda>t. if t = JStr (''Category:'' @ category) then Inr c else has_category cs category)"

text \<open>The version: \<^verbatim>\<open>k.split('#', 1)[1]\<close>, and the empty string on \<^verbatim>\<open>IndexError\<close>.
  The name: \<^verbatim>\<open>k.rsplit('#', 1)[0] or ''\<close>.\<close>

definition version_of :: "string \<Rightarrow> string" where
  "version_of k =
     (case list_getitem (py_split1 CHR ''#'' k) 1 of Inl e \<Rightarrow> '''' | Inr s \<Rightarrow> s)"

definition name_of :: "string \<Rightarrow> error + string" where
  "name_of k =
     bnd (list_getitem (py_rsplit1 CHR ''#'' k) 0) (\<lambda>b. Inr (if b \<noteq> [] then b else ''''))"

text \<open>The test of the two excluded categories; \<^verbatim>\<open>or\<close> does not evaluate its second
  operand when the first is true.\<close>

definition category_excluded :: "printouts_dict \<Rightarrow> error + bool" where
  "category_excluded po =
     bnd (getitem po ''Category'') (\<lambda>cats.
     bnd (has_category cats ''Non-interactive scenery'') (\<lambda>a.
       if truthy a then Inr True
       else
         bnd (getitem po ''Category'') (\<lambda>cats'.
         bnd (has_category cats' ''Discontinued content'') (\<lambda>b. Inr (truthy b)))))"

definition image_of :: "printouts_dict \<Rightarrow> error + string" where
  "image_of po =
     bnd (getitem po ''Image'') (\<lambda>imgs.
       case imgs of
         [] \<Rightarrow> Inr ''''
       | i # _ \<Rightarrow>
           bnd (subscript i ''fulltext'') (\<lambda>t.
             case t of
               JStr f \<Rightarrow> Inr (py_replace f ''File:'' '''')
             | _ \<Rightarrow> Inl AttributeError))"

text \<open>\<^verbatim>\<open>get_printout_value(po[key]) or 0\<close>.\<close>

definition printout_or_zero :: "printouts_dict \<Rightarrow> string \<Rightarrow> error + json" where
  "printout_or_zero po key =
     bnd (getitem po key) (\<lambda>prop. Inr (py_or (get_printout_value prop) (JInt 0)))"

definition skills_keys :: "string list" where
  "skills_keys =
     [''Attack level'', ''Defence level'', ''Hitpoints'', ''Magic level'', ''Ranged level'',
      ''Strength level'']"

definition offensive_keys :: "string list" where
  "offensive_keys =
     [''Attack bonus'', ''Magic Damage bonus'', ''Magic attack bonus'', ''Range attack bonus'',
      ''Ranged Strength bonus'', ''Strength bonus'']"

definition defensive_keys :: "string list" where
  "defensive_keys =
     [''Crush defence bonus'', ''Magic defence bonus'', ''Range defence bonus'',
      ''Slash defence bonus'', ''Stab defence bonus'']"

text \<open>The keys of the printouts that the loop body reads, in the order of their first
  use.\<close>

definition accessed_keys :: "string list" where
  "accessed_keys =
     [''Category'', ''NPC ID'', ''Image'', ''Combat level'', ''Attack speed'', ''Size'']
       @ skills_keys @ offensive_keys @ defensive_keys @ [''Monster attribute'']"

text \<open>The dict literal \<^verbatim>\<open>monster = {...}\<close>: its values are evaluated in the order
  written, so the first missing key or ill-typed value raises.\<close>

definition build_monster :: "string \<Rightarrow> string \<Rightarrow> printouts_dict \<Rightarrow> error + monster" where
  "build_monster k ver po =
     bnd (getitem po ''NPC ID'') (\<lambda>npc.
     bnd (name_of k) (\<lambda>nm.
     bnd (image_of po) (\<lambda>img.
     bnd (printout_or_zero po ''Combat level'') (\<lambda>lvl.
     bnd (printout_or_zero po ''Attack speed'') (\<lambda>spd.
     bnd (printout_or_zero po ''Size'') (\<lambda>sz.
     bnd (map_res (printout_or_zero po) skills_keys) (\<lambda>sk.
     bnd (map_res (printout_or_zero po) offensive_keys) (\<lambda>off.
     bnd (map_res (printout_or_zero po) defensive_keys) (\<lambda>dfn.
     bnd (getitem po ''Monster attribute'') (\<lambda>attrs.
       Inr \<lparr> id_field = get_printout_value npc, name = nm, version = ver,
             image_field = img, level = lvl, speed = spd, size_field = sz,
             skills = sk, offensive = off, defensive = dfn,
             attributes = attrs \<rparr>))))))))))"

text \<open>The pruning test. \<open>skills\<close> has six elements in every monster built above, so
  \<^verbatim>\<open>monster['skills'][2]\<close> is in range.\<close>

definition prune :: "monster \<Rightarrow> bool" where
  "prune m =
     (py_eq_int (skills m ! 2) 0
      \<or> id_field m = JNull
      \<or> py_in ''(historical)'' (py_lower (name m))
      \<or> py_in ''(pvm arena)'' (py_lower (name m))
      \<or> py_in ''(deadman: apocalypse)'' (py_lower (name m)))"

definition apply_overrides :: "monster \<Rightarrow> monster" where
  "apply_overrides m =
     (if name m = ''Vardorvis'' then
        (if version m = ''Post-Quest''
           then m\<lparr>skills := (skills m)[1 := JInt 215, 5 := JInt 270]\<rparr>
         else if version m = ''Awakened''
           then m\<lparr>skills := (skills m)[1 := JInt 268, 5 := JInt 391]\<rparr>
         else if version m = ''Quest''
           then m\<lparr>skills := (skills m)[1 := JInt 180, 5 := JInt 210]\<rparr>
         else m)
      else m)"

text \<open>One pass of the loop body: the record is skipped by one of the five
  \<^verbatim>\<open>continue\<close> statements, kept (appended to \<^verbatim>\<open>data\<close>), or an exception leaves the
  loop.\<close>

datatype skip_reason =
    MissingPrintouts
  | ChallengeModeVariant
  | NotMainNamespace
  | ExcludedCategory
  | Pruned

datatype outcome = Skipped skip_reason | Kept monster

definition process_entry :: "string \<Rightarrow> raw_record \<Rightarrow> error + outcome" where
  "process_entry k v =
     (case printouts v of
        None \<Rightarrow> Inr (Skipped MissingPrintouts)
      | Some po \<Rightarrow>
          if py_in ''Challenge Mode'' (version_of k) then Inr (Skipped ChallengeModeVariant)
          else if re_match_namespace k then Inr (Skipped NotMainNamespace)
          else
            bnd (category_excluded po) (\<lambda>excluded.
              if excluded then Inr (Skipped ExcludedCategory)
              else
                bnd (build_monster k (version_of k) po) (\<lambda>m.
                  if prune m then Inr (Skipped Pruned)
                  else Inr (Kept (apply_overrides m)))))"

text \<open>The loop over \<^verbatim>\<open>wiki_data.items()\<close>, with its two accumulators \<^verbatim>\<open>data\<close> and
  \<^verbatim>\<open>required_imgs\<close>.\<close>

fun normalize_loop ::
  "(string \<times> raw_record) list \<Rightarrow> monster list \<times> string list \<Rightarrow>
     error + (monster list \<times> string list)" where
  "normalize_loop [] acc = Inr acc"
| "normalize_loop ((k, v) # rest) (data, required_imgs) =
     bnd (process_entry k v) (\<lambda>r.
       case r of
         Skipped _ \<Rightarrow> normalize_loop rest (data, required_imgs)
       | Kept m \<Rightarrow>
           normalize_loop rest
             (data @ [m],
              if image_field m \<noteq> '''' then required_imgs @ [image_field m] else required_imgs))"

definition normalize ::
  "(string \<times> raw_record) list \<Rightarrow> error + (monster list \<times> string list)" where
  "normalize items = normalize_loop items ([], [])"

text \<open>What was kept, if anything.\<close>

fun kept_monster :: "error + outcome \<Rightarrow> monster option" where
  "kept_monster (Inr (Kept m)) = Some m"
| "kept_monster _ = None"


section \<open>The fetch loop (\<^verbatim>\<open>get_monster_data\<close>)\<close>

text \<open>A decoded response \<^verbatim>\<open>data\<close> of the API: \<^verbatim>\<open>data['query']['results']\<close>, a dict from
  page key to raw record, and \<^verbatim>\<open>data['query-continue-offset']\<close>, an integer; each
  may be absent. A dict whose order matters is an association list of distinct keys.\<close>

record query_body =
  results :: "(string \<times> raw_record) list option"

record api_response =
  query :: "query_body option"
  query_continue_offset :: "int option"

text \<open>\<^verbatim>\<open>a | b\<close> on dicts: the keys of \<open>a\<close> in their order, with the value of \<open>b\<close> where
  \<open>b\<close> has the key too, then the keys that only \<open>b\<close> has.\<close>

definition dict_union :: "('k \<times> 'v) list \<Rightarrow> ('k \<times> 'v) list \<Rightarrow> ('k \<times> 'v) list" where
  "dict_union a b =
     map (\<lambda>(k, x). (k, case map_of b k of None \<Rightarrow> x | Some y \<Rightarrow> y)) a
       @ filter (\<lambda>(k, y). map_of a k = None) b"

text \<open>
  The API is outside the program, so a run of the loop is taken against a script: the
  answers the API gives to the successive requests, in order (a failed request or an
  undecodable body is an exception, which nothing catches). The loop consumes one
  answer per request. The result lists the offsets of the requests that were sent,
  and says how the run stands when the script ends: the function has returned, an
  exception has left it, or a further request has been sent and is unanswered.
\<close>

datatype fetch_outcome =
    Returned "(string \<times> raw_record) list"
  | Failed error
  | AwaitingResponse "(string \<times> raw_record) list" int

fun get_monster_data_loop ::
  "(error + api_response) list \<Rightarrow> (string \<times> raw_record) list \<Rightarrow> int \<Rightarrow>
     int list \<times> fetch_outcome" where
  "get_monster_data_loop [] monsters offset = ([offset], AwaitingResponse monsters offset)"
| "get_monster_data_loop (Inl e # later) monsters offset = ([offset], Failed e)"
| "get_monster_data_loop (Inr data # later) monsters offset =
     (case query data of
        None \<Rightarrow> ([offset], Returned monsters)
      | Some q \<Rightarrow>
          (case results q of
             None \<Rightarrow> ([offset], Returned monsters)
           | Some res \<Rightarrow>
               (case query_continue_offset data of
                  None \<Rightarrow> ([offset], Returned (dict_union monsters res))
                | Some c \<Rightarrow>
                    if c < offset then ([offset], Returned (dict_union monsters res))
                    else
                      (offset # fst (get_monster_data_loop later (dict_union monsters res) c),
                       snd (get_monster_data_loop later (dict_union monsters res) c)))))"

definition get_monster_data :: "(error + api_response) list \<Rightarrow> int list \<times> fetch_outcome" where
  "get_monster_data script = get_monster_data_loop script [] 0"


section \<open>The image downloader (the second loop of \<^verbatim>\<open>main\<close>)\<close>

text \<open>
  The loop tests and writes the path \<^verbatim>\<open>IMG_PATH + img\<close>. What a path names is the
  operating system's business: \<open>locate\<close> gives the location (the file, whatever it is
  called) that a path names, and gives nothing when the path cannot name a regular
  file, so that \<^verbatim>\<open>open(path, 'wb')\<close> raises (a directory of the path is missing, the
  path names a directory, the file may not be created). Two paths may name one location
  (\<^verbatim>\<open>./Goblin.png\<close> and \<^verbatim>\<open>Goblin.png\<close>). The loop creates files and nothing else, so
  \<open>locate\<close> is the same throughout. The state of the file system is the map \<open>files\<close>
  from locations to contents: \<^verbatim>\<open>os.path.isfile(path)\<close> holds when the path names a
  location that has a content, and \<^verbatim>\<open>open(path, 'wb')\<close> followed by
  \<^verbatim>\<open>f.write(r.content)\<close> gives the location of the path the content (a write to an open
  file stores all of it). The wiki answers a \<^verbatim>\<open>GET\<close> for a name with a status code and
  a body, or the request raises. \<open>writes\<close> logs the paths opened for writing; the three
  counters are those of the script.
\<close>

definition IMG_PATH :: string where
  "IMG_PATH = ''../cdn/monsters/''"

type_synonym bytes = "char list"

datatype http_result = HttpResponse int bytes | RequestFailed

record 'l dl_state =
  files :: "'l \<rightharpoonup> bytes"
  writes :: "string list"
  success_img_dls :: nat
  failed_img_dls :: nat
  skipped_img_dls :: nat

definition isfile :: "(string \<Rightarrow> 'l option) \<Rightarrow> ('l \<rightharpoonup> bytes) \<Rightarrow> string \<Rightarrow> bool" where
  "isfile locate fs path = (case locate path of None \<Rightarrow> False | Some l \<Rightarrow> fs l \<noteq> None)"

definition download_step ::
  "(string \<Rightarrow> 'l option) \<Rightarrow> (string \<Rightarrow> http_result) \<Rightarrow> string \<Rightarrow> 'l dl_state \<Rightarrow>
     error + 'l dl_state" where
  "download_step locate get img s =
     (if isfile locate (files s) (IMG_PATH @ img)
      then Inr (s\<lparr>skipped_img_dls := skipped_img_dls s + 1\<rparr>)
      else
        (case get img of
           RequestFailed \<Rightarrow> Inl RequestException
         | HttpResponse status_code content \<Rightarrow>
             if status_code = 200
             then
               (case locate (IMG_PATH @ img) of
                  None \<Rightarrow> Inl OSError
                | Some l \<Rightarrow>
                    Inr (s\<lparr>files := (files s)(l \<mapsto> content),
                            writes := writes s @ [IMG_PATH @ img],
                            success_img_dls := success_img_dls s + 1\<rparr>))
             else Inr (s\<lparr>failed_img_dls := failed_img_dls s + 1\<rparr>)))"

fun download_loop ::
  "(string \<Rightarrow> 'l option) \<Rightarrow> (string \<Rightarrow> http_result) \<Rightarrow> string list \<Rightarrow> 'l dl_state \<Rightarrow>
     error + 'l dl_state" where
  "download_loop locate get [] s = Inr s"
| "download_loop locate get (img # imgs) s =
     bnd (download_step locate get img s) (download_loop locate get imgs)"

text \<open>A run of the downloader over \<open>imgs\<close>, the elements of \<^verbatim>\<open>set(required_imgs)\<close> in the
  order the \<^verbatim>\<open>for\<close> loop meets them (any order of the set, without repetition), on
  the file system \<open>fs\<close>; the counters start at 0.\<close>

definition download_images ::
  "(string \<Rightarrow> 'l option) \<Rightarrow> (string \<Rightarrow> http_result) \<Rightarrow> string list \<Rightarrow> ('l \<rightharpoonup> bytes) \<Rightarrow>
     error + 'l dl_state" where
  "download_images locate get imgs fs =
     download_loop locate get imgs
       \<lparr>files = fs, writes = [], success_img_dls = 0, failed_img_dls = 0, skipped_img_dls = 0\<rparr>"

text \<open>The body a request for \<open>img\<close> stores: that of a response with status 200.\<close>

definition fetched :: "(string \<Rightarrow> http_result) \<Rightarrow> string \<Rightarrow> bytes option" where
  "fetched get img =
     (case get img of
        HttpResponse status_code content \<Rightarrow> if status_code = 200 then Some content else None
      | RequestFailed \<Rightarrow> None)"

text \<open>No two names of \<open>imgs\<close> name the same location.\<close>

definition no_alias :: "(string \<Rightarrow> 'l option) \<Rightarrow> string list \<Rightarrow> bool" where
  "no_alias locate imgs =
     (\<forall>a\<in>set imgs. \<forall>b\<in>set imgs.
        a \<noteq> b \<longrightarrow> locate (IMG_PATH @ a) = None \<or> locate (IMG_PATH @ a) \<noteq> locate (IMG_PATH @ b))"

text \<open>Projections of a finished run, for stating concrete runs.\<close>

definition run_counts :: "error + 'l dl_state \<Rightarrow> (nat \<times> nat \<times> nat) option" where
  "run_counts r =
     (case r of
        Inl e \<Rightarrow> None
      | Inr s \<Rightarrow> Some (success_img_dls s, failed_img_dls s, skipped_img_dls s))"

definition run_files :: "error + 'l dl_state \<Rightarrow> ('l \<rightharpoonup> bytes)" where
  "run_files r = (case r of Inl e \<Rightarrow> Map.empty | Inr s \<Rightarrow> files s)"

definition run_writes :: "error + 'l dl_state \<Rightarrow> string list option" where
  "run_writes r = (case r of Inl e \<Rightarrow> None | Inr s \<Rightarrow> Some (writes s))"


section \<open>Example inputs\<close>

text \<open>A printouts dict with every key the script reads, all empty apart from the
  hitpoints, the NPC id and the image.\<close>

definition example_printouts :: "json list \<Rightarrow> json list \<Rightarrow> json list \<Rightarrow> printouts_dict" where
  "example_printouts hp npc img =
     (map_of (map (\<lambda>key. (key, [])) accessed_keys))
       (''Hitpoints'' \<mapsto> hp, ''NPC ID'' \<mapsto> npc, ''Image'' \<mapsto> img)"

text \<open>A page of results (here without records) that names a continuation offset.\<close>

definition page :: "int \<Rightarrow> error + api_response" where
  "page c = Inr \<lparr>query = Some \<lparr>results = Some []\<rparr>, query_continue_offset = Some c\<rparr>"


text \<open>A wiki that has the image of the goblin, has none of the cow, and has some
  image for every other name. A file system in which a path names the file of that
  path, except that \<^verbatim>\<open>./Goblin.png\<close> names the file of \<^verbatim>\<open>Goblin.png\<close>, likewise
  \<^verbatim>\<open>./Cow.png\<close> that of \<^verbatim>\<open>Cow.png\<close>, and that the directory of \<^verbatim>\<open>a/b.png\<close> does not
  exist; and a state of it that holds the image of the imp.\<close>

definition example_wiki :: "string \<Rightarrow> http_result" where
  "example_wiki img =
     (if img = ''Goblin.png'' then HttpResponse 200 ''PNG-goblin''
      else if img = ''Cow.png'' then HttpResponse 404 ''Not Found''
      else HttpResponse 200 ''PNG-other'')"

definition example_locate :: "string \<Rightarrow> string option" where
  "example_locate path =
     (if path = IMG_PATH @ ''./Goblin.png'' then Some (IMG_PATH @ ''Goblin.png'')
      else if path = IMG_PATH @ ''./Cow.png'' then Some (IMG_PATH @ ''Cow.png'')
      else if path = IMG_PATH @ ''a/b.png'' then None
      else Some path)"

definition example_cache :: "string \<rightharpoonup> bytes" where
  "example_cache = [IMG_PATH @ ''Imp.png'' \<mapsto> ''PNG-imp'']"


section \<open>Basic facts\<close>

lemma bnd_Inl [simp]: "bnd (Inl e) f = Inl e"
  by (simp add: bnd_def)

lemma bnd_Inr [simp]: "bnd (Inr x) f = f x"
  by (simp add: bnd_def)

lemma bnd_eq_Inr: "bnd r f = Inr y \<longleftrightarrow> (\<exists>x. r = Inr x \<and> f x = Inr y)"
  by (cases r) simp_all

lemma bnd_eq_Inl: "bnd r f = Inl e \<longleftrightarrow> r = Inl e \<or> (\<exists>x. r = Inr x \<and> f x = Inl e)"
  by (cases r) simp_all

lemma getitem_eq_Inr: "getitem d key = Inr x \<longleftrightarrow> d key = Some x"
  by (simp add: getitem_def split: option.splits)

lemma getitem_eq_Inl: "getitem d key = Inl e \<longleftrightarrow> d key = None \<and> e = KeyError key"
  by (auto simp add: getitem_def split: option.splits)

lemma printout_or_zero_eq_Inr:
  "printout_or_zero po key = Inr x \<longleftrightarrow>
     (\<exists>prop. po key = Some prop \<and> x = py_or (get_printout_value prop) (JInt 0))"
  by (auto simp add: printout_or_zero_def bnd_eq_Inr getitem_eq_Inr)

lemma printout_or_zero_eq_Inl:
  "printout_or_zero po key = Inl e \<longleftrightarrow> po key = None \<and> e = KeyError key"
  by (auto simp add: printout_or_zero_def bnd_eq_Inl getitem_eq_Inl getitem_eq_Inr)

lemma map_res_eq_Inr:
  "map_res f xs = Inr ys \<longleftrightarrow> list_all2 (\<lambda>x y. f x = Inr y) xs ys"
proof (induction xs arbitrary: ys)
  case Nil
  show ?case by auto
next
  case (Cons x xs)
  show ?case by (auto simp add: bnd_eq_Inr Cons.IH list_all2_Cons1)
qed

lemma map_res_eq_Inl:
  "map_res f xs = Inl e \<Longrightarrow> \<exists>x\<in>set xs. f x = Inl e"
  by (induction xs) (auto simp add: bnd_eq_Inl)

lemma map_res_total:
  "(\<And>x. x \<in> set xs \<Longrightarrow> \<exists>y. f x = Inr y) \<Longrightarrow> \<exists>ys. map_res f xs = Inr ys"
proof (induction xs)
  case Nil
  show ?case by simp
next
  case (Cons x xs)
  obtain y where y: "f x = Inr y" using Cons.prems[of x] by auto
  obtain ys where ys: "map_res f xs = Inr ys" using Cons.IH Cons.prems by auto
  show ?case by (simp add: y ys)
qed

lemma map_res_keys:
  "map_res (printout_or_zero po) ks = Inr vs \<Longrightarrow> \<forall>x\<in>set ks. po x \<noteq> None"
  by (induction ks arbitrary: vs) (auto simp add: bnd_eq_Inr printout_or_zero_eq_Inr)

lemma name_of_total: "\<exists>n. name_of k = Inr n"
  by (simp add: name_of_def py_rsplit1_def list_getitem_def)

lemma subscript_Inl:
  "subscript i key = Inl e \<Longrightarrow> e = TypeError \<or> e = KeyError key"
  by (cases i) (auto split: option.splits)

lemma truthy_not_zero: "truthy x \<Longrightarrow> \<not> py_eq_int x 0"
  by (cases x) auto

lemma kept_monster_eq_Some:
  "kept_monster r = Some m \<longleftrightarrow> r = Inr (Kept m)"
  by (cases r rule: kept_monster.cases) auto

text \<open>The definitions that evaluate the loop body on a concrete record.\<close>

lemmas entry_eval =
  process_entry_def version_of_def py_split1_def list_getitem_def re_match_namespace_def
  in_A_z_def category_excluded_def getitem_def example_printouts_def accessed_keys_def skills_keys_def
  offensive_keys_def defensive_keys_def build_monster_def name_of_def py_rsplit1_def image_of_def
  printout_or_zero_def py_or_def prune_def py_lower_def lower_char_def apply_overrides_def
  py_replace_def


section \<open>The loop body of the normalizer\<close>

lemma process_entry_eq_Kept:
  "process_entry k v = Inr (Kept m) \<longleftrightarrow>
     (\<exists>po m0. printouts v = Some po \<and> \<not> py_in ''Challenge Mode'' (version_of k)
        \<and> \<not> re_match_namespace k \<and> category_excluded po = Inr False
        \<and> build_monster k (version_of k) po = Inr m0 \<and> \<not> prune m0 \<and> m = apply_overrides m0)"
  by (auto simp add: process_entry_def bnd_eq_Inr split: option.splits if_splits)

lemma build_monster_Inr:
  assumes "build_monster k ver po = Inr m"
  shows "\<exists>npc attrs. po ''NPC ID'' = Some npc \<and> po ''Monster attribute'' = Some attrs
           \<and> id_field m = get_printout_value npc \<and> attributes m = attrs"
    and "name_of k = Inr (name m)"
    and "version m = ver"
    and "image_of po = Inr (image_field m)"
    and "printout_or_zero po ''Combat level'' = Inr (level m)"
    and "printout_or_zero po ''Attack speed'' = Inr (speed m)"
    and "printout_or_zero po ''Size'' = Inr (size_field m)"
    and "map_res (printout_or_zero po) skills_keys = Inr (skills m)"
    and "map_res (printout_or_zero po) offensive_keys = Inr (offensive m)"
    and "map_res (printout_or_zero po) defensive_keys = Inr (defensive m)"
  using assms by (auto simp add: build_monster_def bnd_eq_Inr getitem_eq_Inr)

lemma skills_shape:
  assumes "map_res (printout_or_zero po) skills_keys = Inr sk"
  shows "\<exists>a d h g r s. sk = [a, d, h, g, r, s] \<and> printout_or_zero po ''Defence level'' = Inr d
     \<and> printout_or_zero po ''Hitpoints'' = Inr h \<and> printout_or_zero po ''Strength level'' = Inr s"
proof -
  from assms have "list_all2 (\<lambda>x y. printout_or_zero po x = Inr y) skills_keys sk"
    by (simp only: map_res_eq_Inr)
  then show ?thesis by (auto simp add: skills_keys_def list_all2_Cons1)
qed

lemma category_excluded_Inr:
  "category_excluded po = Inr b \<Longrightarrow> po ''Category'' \<noteq> None"
  by (auto simp add: category_excluded_def bnd_eq_Inr getitem_eq_Inr)

lemma image_of_Inr: "image_of po = Inr img \<Longrightarrow> po ''Image'' \<noteq> None"
  by (auto simp add: image_of_def bnd_eq_Inr getitem_eq_Inr)

lemma image_of_Inl:
  assumes "image_of po = Inl e"
  shows "(po ''Image'' = None \<and> e = KeyError ''Image'') \<or> e = TypeError
     \<or> e = KeyError ''fulltext'' \<or> e = AttributeError"
proof (cases "po ''Image''")
  case None
  then show ?thesis using assms by (simp add: image_of_def getitem_def)
next
  case (Some imgs)
  show ?thesis
  proof (cases imgs)
    case Nil
    then show ?thesis using assms Some by (simp add: image_of_def getitem_def)
  next
    case (Cons i others)
    show ?thesis
    proof (cases "subscript i ''fulltext''")
      case (Inl e')
      then have "e = e'" using assms Some Cons by (simp add: image_of_def getitem_def)
      then show ?thesis using subscript_Inl[OF Inl] by auto
    next
      case (Inr t)
      then have "e = AttributeError"
        using assms Some Cons by (cases t) (simp_all add: image_of_def getitem_def)
      then show ?thesis by simp
    qed
  qed
qed

lemma build_monster_keys:
  assumes "build_monster k ver po = Inr m" and "key \<in> set accessed_keys" and "key \<noteq> ''Category''"
  shows "po key \<noteq> None"
proof -
  note B = build_monster_Inr[OF assms(1)]
  have sk: "\<forall>x\<in>set skills_keys. po x \<noteq> None"
    using map_res_keys[OF B(8)] by simp
  have off: "\<forall>x\<in>set offensive_keys. po x \<noteq> None"
    using map_res_keys[OF B(9)] by simp
  have dfn: "\<forall>x\<in>set defensive_keys. po x \<noteq> None"
    using map_res_keys[OF B(10)] by simp
  have rest: "po ''NPC ID'' \<noteq> None" "po ''Monster attribute'' \<noteq> None" "po ''Image'' \<noteq> None"
     "po ''Combat level'' \<noteq> None" "po ''Attack speed'' \<noteq> None" "po ''Size'' \<noteq> None"
    using B(1) image_of_Inr[OF B(4)] B(5) B(6) B(7) by (auto simp add: printout_or_zero_eq_Inr)
  from assms(2) assms(3) have "key \<in> set skills_keys \<or> key \<in> set offensive_keys \<or> key \<in> set defensive_keys
     \<or> key \<in> {''NPC ID'', ''Monster attribute'', ''Image'', ''Combat level'', ''Attack speed'', ''Size''}"
    by (auto simp add: accessed_keys_def)
  then show ?thesis using sk off dfn rest by auto
qed

lemma build_monster_total:
  assumes "\<forall>key\<in>set accessed_keys. po key \<noteq> None" and "image_of po = Inr img"
  shows "\<exists>m. build_monster k ver po = Inr m"
proof -
  have P: "\<exists>x. printout_or_zero po key = Inr x" if "key \<in> set accessed_keys" for key
    using assms(1) that by (auto simp add: printout_or_zero_eq_Inr)
  have G: "\<exists>x. getitem po key = Inr x" if "key \<in> set accessed_keys" for key
    using assms(1) that by (auto simp add: getitem_eq_Inr)
  obtain npc where npc: "getitem po ''NPC ID'' = Inr npc"
    using G[of "''NPC ID''"] by (auto simp add: accessed_keys_def)
  obtain attrs where attrs: "getitem po ''Monster attribute'' = Inr attrs"
    using G[of "''Monster attribute''"] by (auto simp add: accessed_keys_def)
  obtain nm where nm: "name_of k = Inr nm"
    using name_of_total by blast
  obtain lvl where lvl: "printout_or_zero po ''Combat level'' = Inr lvl"
    using P[of "''Combat level''"] by (auto simp add: accessed_keys_def)
  obtain spd where spd: "printout_or_zero po ''Attack speed'' = Inr spd"
    using P[of "''Attack speed''"] by (auto simp add: accessed_keys_def)
  obtain sz where sz: "printout_or_zero po ''Size'' = Inr sz"
    using P[of "''Size''"] by (auto simp add: accessed_keys_def)
  have "\<And>x. x \<in> set skills_keys \<Longrightarrow> \<exists>y. printout_or_zero po x = Inr y"
    using P by (simp add: accessed_keys_def)
  then obtain sk where sk: "map_res (printout_or_zero po) skills_keys = Inr sk"
    using map_res_total by blast
  have "\<And>x. x \<in> set offensive_keys \<Longrightarrow> \<exists>y. printout_or_zero po x = Inr y"
    using P by (simp add: accessed_keys_def)
  then obtain off where off: "map_res (printout_or_zero po) offensive_keys = Inr off"
    using map_res_total by blast
  have "\<And>x. x \<in> set defensive_keys \<Longrightarrow> \<exists>y. printout_or_zero po x = Inr y"
    using P by (simp add: accessed_keys_def)
  then obtain dfn where dfn: "map_res (printout_or_zero po) defensive_keys = Inr dfn"
    using map_res_total by blast
  show ?thesis
    by (simp add: build_monster_def npc attrs nm lvl spd sz sk off dfn assms(2))
qed

lemma build_monster_Inl:
  assumes "build_monster k ver po = Inl e"
  shows "(\<exists>key\<in>set accessed_keys. po key = None \<and> e = KeyError key) \<or> image_of po = Inl e"
proof -
  from assms have
    "getitem po ''NPC ID'' = Inl e \<or> name_of k = Inl e \<or> image_of po = Inl e
     \<or> printout_or_zero po ''Combat level'' = Inl e \<or> printout_or_zero po ''Attack speed'' = Inl e
     \<or> printout_or_zero po ''Size'' = Inl e
     \<or> map_res (printout_or_zero po) skills_keys = Inl e
     \<or> map_res (printout_or_zero po) offensive_keys = Inl e
     \<or> map_res (printout_or_zero po) defensive_keys = Inl e
     \<or> getitem po ''Monster attribute'' = Inl e"
    by (auto simp add: build_monster_def bnd_eq_Inl)
  moreover have "name_of k \<noteq> Inl e" using name_of_total[of k] by auto
  moreover have "\<exists>key\<in>set accessed_keys. po key = None \<and> e = KeyError key"
    if "getitem po key' = Inl e" "key' \<in> set accessed_keys" for key'
    using that by (auto simp add: getitem_eq_Inl)
  moreover have "\<exists>key\<in>set accessed_keys. po key = None \<and> e = KeyError key"
    if "printout_or_zero po key' = Inl e" "key' \<in> set accessed_keys" for key'
    using that by (auto simp add: printout_or_zero_eq_Inl)
  moreover have "\<exists>key\<in>set accessed_keys. po key = None \<and> e = KeyError key"
    if "map_res (printout_or_zero po) ks = Inl e" "set ks \<subseteq> set accessed_keys" for ks
    using map_res_eq_Inl[OF that(1)] that(2) by (auto simp add: printout_or_zero_eq_Inl)
  moreover have "''NPC ID'' \<in> set accessed_keys" "''Combat level'' \<in> set accessed_keys"
    "''Attack speed'' \<in> set accessed_keys" "''Size'' \<in> set accessed_keys"
    "''Monster attribute'' \<in> set accessed_keys" "set skills_keys \<subseteq> set accessed_keys"
    "set offensive_keys \<subseteq> set accessed_keys" "set defensive_keys \<subseteq> set accessed_keys"
    by (auto simp add: accessed_keys_def)
  ultimately show ?thesis by blast
qed

lemma build_monster_hitpoints:
  assumes "build_monster k ver po = Inr m" and "po ''Hitpoints'' = Some hp"
  shows "skills m ! 2 = py_or (get_printout_value hp) (JInt 0)"
proof -
  obtain a d h g r s where "skills m = [a, d, h, g, r, s]" "printout_or_zero po ''Hitpoints'' = Inr h"
    using skills_shape[OF build_monster_Inr(8)[OF assms(1)]] by blast
  then show ?thesis using assms(2) by (simp add: printout_or_zero_eq_Inr)
qed

lemma apply_overrides_fields:
  "name (apply_overrides m) = name m" "version (apply_overrides m) = version m"
  "image_field (apply_overrides m) = image_field m" "id_field (apply_overrides m) = id_field m"
  by (simp_all add: apply_overrides_def)

lemma apply_overrides_hitpoints:
  "skills (apply_overrides m) ! 2 = skills m ! 2"
  by (simp add: apply_overrides_def)

lemma kept_has_all_keys:
  assumes "process_entry k v = Inr (Kept m)" and "printouts v = Some po" and "key \<in> set accessed_keys"
  shows "po key \<noteq> None"
proof -
  from assms(1,2) obtain m0 where c: "category_excluded po = Inr False"
      and m0: "build_monster k (version_of k) po = Inr m0"
    by (auto simp add: process_entry_eq_Kept)
  show ?thesis
  proof (cases "key = ''Category''")
    case True
    then show ?thesis using category_excluded_Inr[OF c] by simp
  next
    case False
    then show ?thesis using build_monster_keys[OF m0 assms(3)] by simp
  qed
qed

lemma normalize_loop_raise:
  assumes "process_entry k v = Inl e"
  shows "\<exists>e'. normalize_loop (pre @ (k, v) # post) acc = Inl e'"
proof (induction pre arbitrary: acc)
  case Nil
  obtain d r where "acc = (d, r)" by (cases acc)
  then show ?case using assms by simp
next
  case (Cons x pre)
  obtain k' v' where x: "x = (k', v')" by (cases x)
  obtain d r where acc: "acc = (d, r)" by (cases acc)
  show ?case
  proof (cases "process_entry k' v'")
    case (Inl e')
    then show ?thesis by (simp add: x acc)
  next
    case (Inr out)
    then show ?thesis using Cons.IH by (cases out) (simp_all add: x acc)
  qed
qed


section \<open>The fetch loop: a continuation offset that does not advance\<close>

lemma dict_union_empty: "dict_union ms [] = ms"
  by (induction ms) (auto simp add: dict_union_def)

lemma stalled_offset_never_returns:
  "get_monster_data_loop (replicate n (page c)) ms c = (replicate (Suc n) c, AwaitingResponse ms c)"
  by (induction n) (simp_all add: page_def dict_union_empty)

lemma equal_offset_never_returns:
  "get_monster_data (page 500 # replicate n (page 500))
     = (0 # replicate (Suc n) 500, AwaitingResponse [] 500)"
proof -
  have "get_monster_data (page 500 # replicate n (page 500))
      = (0 # fst (get_monster_data_loop (replicate n (page 500)) [] 500),
         snd (get_monster_data_loop (replicate n (page 500)) [] 500))"
    by (simp add: get_monster_data_def page_def dict_union_empty)
  then show ?thesis by (simp add: stalled_offset_never_returns)
qed

text \<open>
  Claim C1 on the code. The loop leaves only when the continuation offset is smaller
  than the current offset (\<^verbatim>\<open>int(data['query-continue-offset']) < offset\<close>). After a
  first response with continuation offset 500 and a second one with 500 again, the loop
  has sent a third request, with offset 500, and has not returned; it returns after
  three requests if the third response has no results. A second response with the
  smaller offset 499 does end the loop after two requests. As long as the API repeats
  the offset 500, the loop sends one more request with offset 500 and does not return.
\<close>

theorem equal_offset_third_request:
  "get_monster_data [page 500, page 500] = ([0, 500, 500], AwaitingResponse [] 500)
   \<and> get_monster_data [page 500, page 500, Inr \<lparr>query = None, query_continue_offset = None\<rparr>]
       = ([0, 500, 500], Returned [])
   \<and> get_monster_data [page 500, page 499] = ([0, 500], Returned [])
   \<and> (\<forall>n. get_monster_data (page 500 # replicate n (page 500))
          = (0 # replicate (Suc n) 500, AwaitingResponse [] 500))"
proof -
  have a: "get_monster_data [page 500, page 500] = ([0, 500, 500], AwaitingResponse [] 500)"
    by (simp add: get_monster_data_def page_def dict_union_def)
  have b: "get_monster_data [page 500, page 500, Inr \<lparr>query = None, query_continue_offset = None\<rparr>]
       = ([0, 500, 500], Returned [])"
    by (simp add: get_monster_data_def page_def dict_union_def)
  have c: "get_monster_data [page 500, page 499] = ([0, 500], Returned [])"
    by (simp add: get_monster_data_def page_def dict_union_def)
  show ?thesis
    using a b c equal_offset_never_returns by blast
qed


section \<open>Records without hitpoints\<close>

text \<open>
  Claim C2, as the code has it. \<^verbatim>\<open>get_printout_value(po['Hitpoints']) or 0\<close> is the
  integer 0 exactly when the printout is empty or its first element is false in Python's
  sense (the number 0, \<^verbatim>\<open>None\<close>, \<^verbatim>\<open>False\<close>, an empty string, list or dict). Such a
  record is never kept, and if it reaches the pruning step the pruning test holds of
  it. Conversely the hitpoints of a kept monster are the first element of the printout,
  which is true in Python's sense and not equal to 0; nothing makes it positive.
\<close>

theorem falsy_hitpoints_pruned:
  assumes "printouts v = Some po" and "po ''Hitpoints'' = Some hp"
  shows "(\<not> truthy (get_printout_value hp) \<longrightarrow>
            kept_monster (process_entry k v) = None
            \<and> (\<forall>m0. build_monster k (version_of k) po = Inr m0 \<longrightarrow> prune m0))
     \<and> (\<forall>m. process_entry k v = Inr (Kept m) \<longrightarrow>
            skills m ! 2 = get_printout_value hp \<and> truthy (skills m ! 2)
            \<and> \<not> py_eq_int (skills m ! 2) 0)"
proof -
  have pr: "prune m0" if "\<not> truthy (get_printout_value hp)" "build_monster k (version_of k) po = Inr m0" for m0
    using build_monster_hitpoints[OF that(2) assms(2)] that(1) by (simp add: prune_def py_or_def)
  have kept: "skills m ! 2 = get_printout_value hp \<and> truthy (skills m ! 2) \<and> \<not> py_eq_int (skills m ! 2) 0"
    if "process_entry k v = Inr (Kept m)" for m
  proof -
    from that assms(1) obtain m0 where m0: "build_monster k (version_of k) po = Inr m0" "\<not> prune m0"
        "m = apply_overrides m0"
      by (auto simp add: process_entry_eq_Kept)
    have hp: "skills m0 ! 2 = py_or (get_printout_value hp) (JInt 0)"
      using build_monster_hitpoints[OF m0(1) assms(2)] .
    have nz: "\<not> py_eq_int (skills m0 ! 2) 0" using m0(2) by (simp add: prune_def)
    have t: "truthy (get_printout_value hp)"
    proof (rule ccontr)
      assume "\<not> truthy (get_printout_value hp)"
      then have "skills m0 ! 2 = JInt 0" using hp by (simp add: py_or_def)
      then show False using nz by simp
    qed
    with hp have "skills m0 ! 2 = get_printout_value hp" by (simp add: py_or_def)
    then show ?thesis using t m0(3) by (simp add: apply_overrides_hitpoints truthy_not_zero)
  qed
  have nk: "kept_monster (process_entry k v) = None" if f: "\<not> truthy (get_printout_value hp)"
  proof (cases "kept_monster (process_entry k v)")
    case None
    then show ?thesis .
  next
    case (Some m)
    then have "process_entry k v = Inr (Kept m)" by (simp add: kept_monster_eq_Some)
    from kept[OF this] f show ?thesis by auto
  qed
  show ?thesis using pr kept nk by blast
qed

text \<open>Hitpoints \<^verbatim>\<open>[0]\<close> and \<^verbatim>\<open>[]\<close> are pruned; hitpoints \<^verbatim>\<open>[5]\<close> are kept as 5.\<close>

theorem falsy_hitpoints_pruned_witness:
  "kept_monster (process_entry ''Goblin''
        \<lparr>printouts = Some (example_printouts [JInt 0] [JInt 3029] [])\<rparr>) = None
   \<and> process_entry ''Goblin''
        \<lparr>printouts = Some (example_printouts [JInt 0] [JInt 3029] [])\<rparr> = Inr (Skipped Pruned)
   \<and> kept_monster (process_entry ''Goblin''
        \<lparr>printouts = Some (example_printouts [] [JInt 3029] [])\<rparr>) = None
   \<and> process_entry ''Goblin''
        \<lparr>printouts = Some (example_printouts [] [JInt 3029] [])\<rparr> = Inr (Skipped Pruned)
   \<and> map_option (\<lambda>m. skills m ! 2) (kept_monster (process_entry ''Goblin''
        \<lparr>printouts = Some (example_printouts [JInt 5] [JInt 3029] [])\<rparr>)) = Some (JInt 5)"
proof -
  have p: "\<And>hp. printouts \<lparr>printouts = Some (example_printouts hp [JInt 3029] [])\<rparr>
      = Some (example_printouts hp [JInt 3029] [])" by simp
  have h: "\<And>hp. example_printouts hp [JInt 3029] [] ''Hitpoints'' = Some hp"
    by (simp add: example_printouts_def)
  have f0: "\<not> truthy (get_printout_value [JInt 0])" by simp
  have f1: "\<not> truthy (get_printout_value [])" by simp
  have a: "kept_monster (process_entry ''Goblin''
        \<lparr>printouts = Some (example_printouts [JInt 0] [JInt 3029] [])\<rparr>) = None"
    using falsy_hitpoints_pruned[OF p h, of "[JInt 0]" "''Goblin''"] f0 by blast
  have b: "kept_monster (process_entry ''Goblin''
        \<lparr>printouts = Some (example_printouts [] [JInt 3029] [])\<rparr>) = None"
    using falsy_hitpoints_pruned[OF p h, of "[]" "''Goblin''"] f1 by blast
  have c: "process_entry ''Goblin''
        \<lparr>printouts = Some (example_printouts [JInt 0] [JInt 3029] [])\<rparr> = Inr (Skipped Pruned)"
    by (simp add: entry_eval)
  have d: "process_entry ''Goblin''
        \<lparr>printouts = Some (example_printouts [] [JInt 3029] [])\<rparr> = Inr (Skipped Pruned)"
    by (simp add: entry_eval)
  have e: "map_option (\<lambda>m. skills m ! 2) (kept_monster (process_entry ''Goblin''
        \<lparr>printouts = Some (example_printouts [JInt 5] [JInt 3029] [])\<rparr>)) = Some (JInt 5)"
    by (simp add: entry_eval)
  show ?thesis using a b c d e by blast
qed

text \<open>Claim C2 as stated fails: with the hitpoints printout \<^verbatim>\<open>["0"]\<close> the value is the
  non-empty string \<^verbatim>\<open>"0"\<close>, which \<^verbatim>\<open>or\<close> keeps and which is not \<^verbatim>\<open>== 0\<close>, so the record
  is kept; and a record with hitpoints \<^verbatim>\<open>[-1]\<close> is kept with a value that is not
  greater than 0.\<close>

theorem hitpoints_string_zero_kept:
  "kept_monster (process_entry ''Goblin''
        \<lparr>printouts = Some (example_printouts [JStr ''0''] [JInt 3029] [])\<rparr>)
     = Some \<lparr> id_field = JInt 3029, name = ''Goblin'', version = '''', image_field = '''',
         level = JInt 0, speed = JInt 0, size_field = JInt 0,
         skills = [JInt 0, JInt 0, JStr ''0'', JInt 0, JInt 0, JInt 0],
         offensive = [JInt 0, JInt 0, JInt 0, JInt 0, JInt 0, JInt 0],
         defensive = [JInt 0, JInt 0, JInt 0, JInt 0, JInt 0],
         attributes = [] \<rparr>
   \<and> kept_monster (process_entry ''Goblin''
        \<lparr>printouts = Some (example_printouts [JInt (- 1)] [JInt 3029] [])\<rparr>)
     = Some \<lparr> id_field = JInt 3029, name = ''Goblin'', version = '''', image_field = '''',
         level = JInt 0, speed = JInt 0, size_field = JInt 0,
         skills = [JInt 0, JInt 0, JInt (- 1), JInt 0, JInt 0, JInt 0],
         offensive = [JInt 0, JInt 0, JInt 0, JInt 0, JInt 0, JInt 0],
         defensive = [JInt 0, JInt 0, JInt 0, JInt 0, JInt 0],
         attributes = [] \<rparr>"
  by (simp add: entry_eval)


section \<open>The image name\<close>

lemma replace_scan_absent:
  "\<not> py_in old s \<Longrightarrow> replace_scan s old new = s"
  by (induction s) auto

lemma starts_with_append: "starts_with (p @ g) p"
  by (induction p) auto

lemma starts_with_decomp: "starts_with s p \<Longrightarrow> s = p @ drop (length p) s"
  by (induction s p rule: starts_with.induct) auto

lemma replace_scan_prefix:
  assumes "old \<noteq> []"
  shows "replace_scan (old @ g) old new = new @ replace_scan g old new"
proof -
  obtain p ps where old: "old = p # ps" using assms by (cases old) auto
  have "starts_with (ps @ g) ps" by (rule starts_with_append)
  then show ?thesis by (simp add: old)
qed

text \<open>
  Claim C3, as the code has it. For a kept record whose \<^verbatim>\<open>Image\<close> printout is not empty
  and whose first element has the string \<open>f\<close> as its \<^verbatim>\<open>fulltext\<close>, the image field is
  \<^verbatim>\<open>f.replace('File:', '')\<close>: every occurrence of \<^verbatim>\<open>File:\<close> is removed, wherever it
  stands. It is \<open>f\<close> with its leading \<^verbatim>\<open>File:\<close> stripped whenever \<^verbatim>\<open>File:\<close> does not occur
  again in what is left.
\<close>

theorem image_every_File_removed:
  assumes "process_entry k v = Inr (Kept m)" and "printouts v = Some po"
    and "po ''Image'' = Some (i # others)" and "subscript i ''fulltext'' = Inr (JStr f)"
  shows "image_field m = py_replace f ''File:'' ''''
     \<and> (\<not> py_in ''File:'' (strip_leading_prefix ''File:'' f) \<longrightarrow>
           image_field m = strip_leading_prefix ''File:'' f)"
proof -
  from assms(1,2) obtain m0 where m0: "build_monster k (version_of k) po = Inr m0" "m = apply_overrides m0"
    by (auto simp add: process_entry_eq_Kept)
  have "image_of po = Inr (image_field m0)" using build_monster_Inr(4)[OF m0(1)] .
  then have "image_field m0 = py_replace f ''File:'' ''''"
    using assms(3,4) by (simp add: image_of_def getitem_def)
  then have img: "image_field m = py_replace f ''File:'' ''''"
    using m0(2) by (simp add: apply_overrides_fields)
  have strip: "image_field m = strip_leading_prefix ''File:'' f"
    if no: "\<not> py_in ''File:'' (strip_leading_prefix ''File:'' f)"
  proof (cases "starts_with f ''File:''")
    case True
    define g where "g = drop (length ''File:'') f"
    have f: "f = ''File:'' @ g"
      unfolding g_def using True by (rule starts_with_decomp)
    have g: "strip_leading_prefix ''File:'' f = g"
      using True by (simp add: strip_leading_prefix_def g_def)
    have "replace_scan (''File:'' @ g) ''File:'' '''' = '''' @ replace_scan g ''File:'' ''''"
      by (rule replace_scan_prefix) simp
    also have "\<dots> = g"
      using no g by (simp add: replace_scan_absent)
    finally have "py_replace f ''File:'' '''' = g"
      using f by (simp add: py_replace_def)
    then show ?thesis using img g by simp
  next
    case False
    then have "strip_leading_prefix ''File:'' f = f" by (simp add: strip_leading_prefix_def)
    then show ?thesis using img no by (simp add: py_replace_def replace_scan_absent)
  qed
  show ?thesis using img strip by blast
qed

text \<open>The spec's example: \<^verbatim>\<open>File:Foo.png\<close> gives the image \<^verbatim>\<open>Foo.png\<close>.\<close>

theorem image_every_File_removed_witness:
  "map_option image_field (kept_monster (process_entry ''Goblin''
      \<lparr>printouts = Some (example_printouts [JInt 5] [JInt 3029]
         [JObj [(''fulltext'', JStr ''File:Foo.png'')]])\<rparr>)) = Some ''Foo.png''
   \<and> py_replace ''File:Foo.png'' ''File:'' '''' = ''Foo.png''
   \<and> strip_leading_prefix ''File:'' ''File:Foo.png'' = ''Foo.png''"
proof -
  define v where "v = \<lparr>printouts = Some (example_printouts [JInt 5] [JInt 3029]
         [JObj [(''fulltext'', JStr ''File:Foo.png'')]])\<rparr>"
  define m where "m = \<lparr> id_field = JInt 3029, name = ''Goblin'', version = '''',
         image_field = ''Foo.png'', level = JInt 0, speed = JInt 0, size_field = JInt 0,
         skills = [JInt 0, JInt 0, JInt 5, JInt 0, JInt 0, JInt 0],
         offensive = [JInt 0, JInt 0, JInt 0, JInt 0, JInt 0, JInt 0],
         defensive = [JInt 0, JInt 0, JInt 0, JInt 0, JInt 0],
         attributes = [] \<rparr>"
  have h1: "process_entry ''Goblin'' v = Inr (Kept m)"
    by (simp add: v_def m_def entry_eval)
  have h2: "printouts v = Some (example_printouts [JInt 5] [JInt 3029]
         [JObj [(''fulltext'', JStr ''File:Foo.png'')]])"
    by (simp add: v_def)
  have h3: "example_printouts [JInt 5] [JInt 3029] [JObj [(''fulltext'', JStr ''File:Foo.png'')]] ''Image''
     = Some (JObj [(''fulltext'', JStr ''File:Foo.png'')] # [])"
    by (simp add: example_printouts_def)
  have h4: "subscript (JObj [(''fulltext'', JStr ''File:Foo.png'')]) ''fulltext'' = Inr (JStr ''File:Foo.png'')"
    by simp
  have s: "strip_leading_prefix ''File:'' ''File:Foo.png'' = ''Foo.png''"
    by (simp add: strip_leading_prefix_def)
  have n: "\<not> py_in ''File:'' (strip_leading_prefix ''File:'' ''File:Foo.png'')"
    by (simp add: s)
  note T = image_every_File_removed[OF h1 h2 h3 h4]
  have r: "image_field m = py_replace ''File:Foo.png'' ''File:'' ''''"
    using T by blast
  have "image_field m = strip_leading_prefix ''File:'' ''File:Foo.png''"
    using T n by blast
  then have i: "image_field m = ''Foo.png''"
    unfolding s .
  have q: "py_replace ''File:Foo.png'' ''File:'' '''' = ''Foo.png''"
    using trans[OF r[symmetric] i] .
  have "map_option image_field (kept_monster (process_entry ''Goblin'' v)) = Some ''Foo.png''"
    using h1 i by simp
  then show ?thesis using q s unfolding v_def by blast
qed

text \<open>Claim C3 as stated fails: for the \<^verbatim>\<open>fulltext\<close> \<^verbatim>\<open>File:Old File:Goblin.png\<close> the
  image field is \<^verbatim>\<open>Old Goblin.png\<close>, while stripping the leading prefix alone gives
  \<^verbatim>\<open>Old File:Goblin.png\<close>.\<close>

theorem image_inner_File_removed:
  "map_option image_field (kept_monster (process_entry ''Goblin''
      \<lparr>printouts = Some (example_printouts [JInt 5] [JInt 3029]
         [JObj [(''fulltext'', JStr ''File:Old File:Goblin.png'')]])\<rparr>)) = Some ''Old Goblin.png''
   \<and> strip_leading_prefix ''File:'' ''File:Old File:Goblin.png'' = ''Old File:Goblin.png''
   \<and> ''Old Goblin.png'' \<noteq> ''Old File:Goblin.png''"
  by (simp add: entry_eval strip_leading_prefix_def)


section \<open>Keys outside the main namespace\<close>

lemma re_match_namespace_alpha:
  assumes "\<forall>c\<in>set tok. is_alpha c"
  shows "re_match_namespace (tok @ CHR '':'' # rest)"
proof -
  have "\<And>c. c \<in> set tok \<Longrightarrow> in_A_z c"
    using assms by (auto simp add: is_alpha_def in_A_z_def)
  then have "dropWhile in_A_z (tok @ CHR '':'' # rest) = dropWhile in_A_z (CHR '':'' # rest)"
    by (simp add: dropWhile_append2)
  also have "\<dots> = CHR '':'' # rest"
    by (simp add: in_A_z_def)
  finally show ?thesis
    by (simp add: re_match_namespace_def)
qed

text \<open>
  Claim C5. A raw record whose key starts with an alphabetic token followed by a colon
  (the pattern \<^verbatim>\<open>^[A-Za-z]+:\<close>: \<open>k = tok @ ':' # rest\<close> with \<open>tok\<close> non-empty and made of
  ASCII letters) is excluded whatever else it holds: the loop body ends in one of its
  \<^verbatim>\<open>continue\<close> statements, nothing is kept, and the two accumulators are as if the
  record had not been there.
\<close>

theorem namespace_key_excluded:
  assumes "k = tok @ CHR '':'' # rest" and "tok \<noteq> []" and "\<forall>c\<in>set tok. is_alpha c"
  shows "(\<exists>r. process_entry k v = Inr (Skipped r))
     \<and> kept_monster (process_entry k v) = None
     \<and> normalize_loop ((k, v) # items) (data, required_imgs) = normalize_loop items (data, required_imgs)"
proof -
  have ns: "re_match_namespace k"
    using assms(1) assms(3) by (simp add: re_match_namespace_alpha)
  have "\<exists>r. process_entry k v = Inr (Skipped r)"
    using ns by (cases "printouts v") (simp_all add: process_entry_def)
  then obtain r where r: "process_entry k v = Inr (Skipped r)" ..
  then show ?thesis by simp
qed

text \<open>The key \<^verbatim>\<open>File:Goblin.png\<close> is skipped as a page outside the main namespace;
  the same record under the key \<^verbatim>\<open>Goblin.png\<close> is kept.\<close>

theorem namespace_key_excluded_witness:
  "process_entry ''File:Goblin.png''
      \<lparr>printouts = Some (example_printouts [JInt 5] [JInt 3029] [])\<rparr> = Inr (Skipped NotMainNamespace)
   \<and> kept_monster (process_entry ''File:Goblin.png''
      \<lparr>printouts = Some (example_printouts [JInt 5] [JInt 3029] [])\<rparr>) = None
   \<and> kept_monster (process_entry ''Goblin.png''
      \<lparr>printouts = Some (example_printouts [JInt 5] [JInt 3029] [])\<rparr>) \<noteq> None"
proof -
  have h1: "''File:Goblin.png'' = ''File'' @ CHR '':'' # ''Goblin.png''" by simp
  have h2: "''File'' \<noteq> []" by simp
  have h3: "\<forall>c\<in>set ''File''. is_alpha c" by (simp add: is_alpha_def)
  have a: "process_entry ''File:Goblin.png''
      \<lparr>printouts = Some (example_printouts [JInt 5] [JInt 3029] [])\<rparr> = Inr (Skipped NotMainNamespace)"
    by (simp add: process_entry_def version_of_def py_split1_def list_getitem_def
        re_match_namespace_def in_A_z_def)
  have b: "kept_monster (process_entry ''Goblin.png''
      \<lparr>printouts = Some (example_printouts [JInt 5] [JInt 3029] [])\<rparr>) \<noteq> None"
    by (simp add: process_entry_def version_of_def py_split1_def list_getitem_def re_match_namespace_def
     in_A_z_def category_excluded_def getitem_def example_printouts_def accessed_keys_def skills_keys_def
     offensive_keys_def defensive_keys_def build_monster_def name_of_def py_rsplit1_def image_of_def
     printout_or_zero_def py_or_def prune_def py_lower_def lower_char_def apply_overrides_def)
  show ?thesis
    using namespace_key_excluded [OF h1 h2 h3,
        of "\<lparr>printouts = Some (example_printouts [JInt 5] [JInt 3029] [])\<rparr>"] a b
    by simp
qed


section \<open>Name and version\<close>

lemma version_of_first_hash:
  assumes "CHR ''#'' \<notin> set a"
  shows "version_of (a @ CHR ''#'' # b) = b"
proof -
  have "dropWhile (\<lambda>c. c \<noteq> CHR ''#'') a = []"
    using assms by (auto simp add: dropWhile_eq_Nil_conv)
  then show ?thesis
    by (simp add: version_of_def py_split1_def list_getitem_def dropWhile_append3)
qed

lemma name_of_last_hash:
  assumes "CHR ''#'' \<notin> set b"
  shows "name_of (a @ CHR ''#'' # b) = Inr a"
proof -
  have "dropWhile (\<lambda>c. c \<noteq> CHR ''#'') (rev b) = []"
    using assms by (auto simp add: dropWhile_eq_Nil_conv)
  then have "dropWhile (\<lambda>c. c \<noteq> CHR ''#'') (rev b @ CHR ''#'' # rev a) = CHR ''#'' # rev a"
    by (simp add: dropWhile_append3)
  then show ?thesis
    by (simp add: name_of_def py_rsplit1_def list_getitem_def)
qed

lemma no_hash:
  assumes "CHR ''#'' \<notin> set k"
  shows "name_of k = Inr k" and "version_of k = ''''"
  using assms by (simp_all add: name_of_def version_of_def py_rsplit1_def py_split1_def list_getitem_def)

lemma one_hash_split:
  assumes "length (filter (\<lambda>c. c = CHR ''#'') k) = 1"
  shows "\<exists>a b. k = a @ CHR ''#'' # b \<and> CHR ''#'' \<notin> set a \<and> CHR ''#'' \<notin> set b"
proof -
  have "filter (\<lambda>c. c = CHR ''#'') k \<noteq> []" using assms by auto
  then have "CHR ''#'' \<in> set k" by (auto simp add: filter_empty_conv)
  then obtain a b where ab: "k = a @ CHR ''#'' # b" "CHR ''#'' \<notin> set a"
    by (meson split_list_first)
  have "filter (\<lambda>c. c = CHR ''#'') a = []" using ab(2) by (auto simp add: filter_empty_conv)
  with assms ab(1) have "filter (\<lambda>c. c = CHR ''#'') b = []" by simp
  then have "CHR ''#'' \<notin> set b" by (auto simp add: filter_empty_conv)
  with ab show ?thesis by blast
qed

text \<open>
  What the two cuts give. The version is what follows the first \<^verbatim>\<open>#\<close> of the key
  (\<^verbatim>\<open>split\<close>), and the name is what precedes the last \<^verbatim>\<open>#\<close> (\<^verbatim>\<open>rsplit\<close>); a key
  without \<^verbatim>\<open>#\<close> is its own name and has the empty version. For a key with exactly one
  \<^verbatim>\<open>#\<close> the two cuts coincide, and name, \<^verbatim>\<open>#\<close> and version put together give the key
  back. The name and version of a kept monster are these two values.
\<close>

lemma version_first_name_last:
  "(\<forall>a b. k = a @ CHR ''#'' # b \<and> CHR ''#'' \<notin> set a \<longrightarrow> version_of k = b)
   \<and> (\<forall>a b. k = a @ CHR ''#'' # b \<and> CHR ''#'' \<notin> set b \<longrightarrow> name_of k = Inr a)
   \<and> (CHR ''#'' \<notin> set k \<longrightarrow> name_of k = Inr k \<and> version_of k = '''')
   \<and> (length (filter (\<lambda>c. c = CHR ''#'') k) = 1 \<longrightarrow>
        (\<exists>n. name_of k = Inr n \<and> n @ CHR ''#'' # version_of k = k))
   \<and> (\<forall>m. process_entry k v = Inr (Kept m) \<longrightarrow> name_of k = Inr (name m) \<and> version m = version_of k)"
proof -
  have one: "length (filter (\<lambda>c. c = CHR ''#'') k) = 1 \<Longrightarrow>
        (\<exists>n. name_of k = Inr n \<and> n @ CHR ''#'' # version_of k = k)"
  proof -
    assume "length (filter (\<lambda>c. c = CHR ''#'') k) = 1"
    then obtain a b where "k = a @ CHR ''#'' # b" "CHR ''#'' \<notin> set a" "CHR ''#'' \<notin> set b"
      using one_hash_split by blast
    then show ?thesis by (simp add: version_of_first_hash name_of_last_hash)
  qed
  have kept: "\<And>m. process_entry k v = Inr (Kept m) \<Longrightarrow> name_of k = Inr (name m) \<and> version m = version_of k"
  proof -
    fix m assume "process_entry k v = Inr (Kept m)"
    then obtain po m0 where m0: "build_monster k (version_of k) po = Inr m0" "m = apply_overrides m0"
      by (auto simp add: process_entry_eq_Kept)
    have "name m = name m0" "version m = version m0"
      using m0(2) by (simp_all add: apply_overrides_def)
    then show "name_of k = Inr (name m) \<and> version m = version_of k"
      using build_monster_Inr(2,3)[OF m0(1)] by simp
  qed
  show ?thesis
    using one kept by (auto simp add: version_of_first_hash name_of_last_hash no_hash)
qed

text \<open>
  Claim C6 on the code. The claim takes the name to be the key without its version
  suffix, so that name, \<^verbatim>\<open>#\<close> and version give the key back whenever the key has a
  \<^verbatim>\<open>#\<close>. The version is cut at the first \<^verbatim>\<open>#\<close> (\<^verbatim>\<open>split\<close>), but the name is cut at
  the last one (\<^verbatim>\<open>rsplit\<close>): for the key \<^verbatim>\<open>Nex#Phase 1#Hard\<close> the kept monster has the
  name \<^verbatim>\<open>Nex#Phase 1\<close> and the version \<^verbatim>\<open>Phase 1#Hard\<close>, which overlap and put together
  give \<^verbatim>\<open>Nex#Phase 1#Phase 1#Hard\<close>, not the key.
\<close>

theorem two_hashes_overlap:
  "map_option (\<lambda>m. name m @ ''#'' @ version m) (kept_monster (process_entry ''Nex#Phase 1#Hard''
      \<lparr>printouts = Some (example_printouts [JInt 5] [JInt 3029] [])\<rparr>)) = Some ''Nex#Phase 1#Phase 1#Hard''
   \<and> name_of ''Nex#Phase 1#Hard'' = Inr ''Nex#Phase 1''
   \<and> version_of ''Nex#Phase 1#Hard'' = ''Phase 1#Hard''
   \<and> ''Nex#Phase 1#Phase 1#Hard'' \<noteq> ''Nex#Phase 1#Hard''"
  by (simp add: entry_eval)


section \<open>The override for Vardorvis\<close>

lemma name_of_vardorvis: "name_of ''Vardorvis#Awakened'' = Inr ''Vardorvis''"
  by (simp add: name_of_def py_rsplit1_def list_getitem_def)

lemma version_of_vardorvis: "version_of ''Vardorvis#Awakened'' = ''Awakened''"
  by (simp add: version_of_def py_split1_def list_getitem_def)

lemma vardorvis_not_pruned_by_name:
  "\<not> py_in ''(historical)'' (py_lower ''Vardorvis'')"
  "\<not> py_in ''(pvm arena)'' (py_lower ''Vardorvis'')"
  "\<not> py_in ''(deadman: apocalypse)'' (py_lower ''Vardorvis'')"
  by (simp_all add: py_lower_def lower_char_def)

lemma vardorvis_key_passes:
  "\<not> py_in ''Challenge Mode'' (version_of ''Vardorvis#Awakened'')"
  "\<not> re_match_namespace ''Vardorvis#Awakened''"
  by (simp_all add: version_of_vardorvis re_match_namespace_def in_A_z_def)

text \<open>
  Claim C7. Take the key \<^verbatim>\<open>Vardorvis#Awakened\<close> and printouts that hold every key the
  script reads, with hitpoints \<^verbatim>\<open>["1000"]\<close> and NPC id \<^verbatim>\<open>["8609"]\<close> (as strings, or as
  the numbers 1000 and 8609), a \<^verbatim>\<open>Category\<close> printout that does not exclude the record
  and a well-formed \<^verbatim>\<open>Image\<close> printout. Then the record is kept, with name
  \<^verbatim>\<open>Vardorvis\<close>, version \<^verbatim>\<open>Awakened\<close>, \<^verbatim>\<open>skills[1] == 268\<close> and \<^verbatim>\<open>skills[5] == 391\<close>,
  whatever the printouts give for the defence and strength levels.
\<close>

theorem vardorvis_awakened_override:
  assumes "printouts v = Some po"
    and "\<forall>key\<in>set accessed_keys. po key \<noteq> None"
    and "po ''Hitpoints'' = Some [hp]" and "hp = JStr ''1000'' \<or> hp = JInt 1000"
    and "po ''NPC ID'' = Some [npc]" and "npc = JStr ''8609'' \<or> npc = JInt 8609"
    and "category_excluded po = Inr False"
    and "image_of po = Inr img"
  shows "\<exists>m. process_entry ''Vardorvis#Awakened'' v = Inr (Kept m)
           \<and> name m = ''Vardorvis'' \<and> version m = ''Awakened''
           \<and> length (skills m) = 6 \<and> skills m ! 1 = JInt 268 \<and> skills m ! 5 = JInt 391
           \<and> skills m ! 2 = hp \<and> id_field m = npc \<and> image_field m = img"
proof -
  obtain m0 where m0: "build_monster ''Vardorvis#Awakened'' ''Awakened'' po = Inr m0"
    using build_monster_total[OF assms(2) assms(8)] by blast
  note B = build_monster_Inr[OF m0]
  have nm: "name m0 = ''Vardorvis''" using B(2) by (simp add: name_of_vardorvis)
  have ver: "version m0 = ''Awakened''" using B(3) .
  have img: "image_field m0 = img" using B(4) assms(8) by simp
  have idf: "id_field m0 = npc" using B(1) assms(5) by auto
  obtain a d h g r s where sk: "skills m0 = [a, d, h, g, r, s]"
    using skills_shape[OF B(8)] by blast
  have hp: "skills m0 ! 2 = hp"
    using build_monster_hitpoints[OF m0 assms(3)] assms(4) by (auto simp add: py_or_def)
  have np: "\<not> prune m0"
    using hp idf nm assms(4) assms(6) by (auto simp add: prune_def vardorvis_not_pruned_by_name)
  have pe: "process_entry ''Vardorvis#Awakened'' v = Inr (Kept (apply_overrides m0))"
    using assms(1) assms(7) m0 np
    by (simp add: process_entry_def vardorvis_key_passes version_of_vardorvis)
  have ov: "skills (apply_overrides m0) = [a, JInt 268, h, g, r, JInt 391]"
    using nm ver sk by (simp add: apply_overrides_def)
  have "name (apply_overrides m0) = ''Vardorvis'' \<and> version (apply_overrides m0) = ''Awakened''
     \<and> length (skills (apply_overrides m0)) = 6 \<and> skills (apply_overrides m0) ! 1 = JInt 268
     \<and> skills (apply_overrides m0) ! 5 = JInt 391 \<and> skills (apply_overrides m0) ! 2 = hp
     \<and> id_field (apply_overrides m0) = npc \<and> image_field (apply_overrides m0) = img"
    using nm ver img idf hp sk by (simp add: ov apply_overrides_fields)
  then show ?thesis using pe by blast
qed

text \<open>The record of claim C7 with defence level 1 and strength level 2 from the API:
  the kept monster has 268 and 391 in their place.\<close>

theorem vardorvis_awakened_override_witness:
  "(\<exists>m. process_entry ''Vardorvis#Awakened''
          \<lparr>printouts = Some ((example_printouts [JStr ''1000''] [JStr ''8609''] [])
             (''Defence level'' \<mapsto> [JInt 1], ''Strength level'' \<mapsto> [JInt 2]))\<rparr> = Inr (Kept m)
        \<and> name m = ''Vardorvis'' \<and> version m = ''Awakened''
        \<and> length (skills m) = 6 \<and> skills m ! 1 = JInt 268 \<and> skills m ! 5 = JInt 391
        \<and> skills m ! 2 = JStr ''1000'' \<and> id_field m = JStr ''8609'' \<and> image_field m = '''')
   \<and> kept_monster (process_entry ''Vardorvis#Awakened''
          \<lparr>printouts = Some ((example_printouts [JStr ''1000''] [JStr ''8609''] [])
             (''Defence level'' \<mapsto> [JInt 1], ''Strength level'' \<mapsto> [JInt 2]))\<rparr>)
       = Some \<lparr> id_field = JStr ''8609'', name = ''Vardorvis'', version = ''Awakened'',
           image_field = '''', level = JInt 0, speed = JInt 0, size_field = JInt 0,
           skills = [JInt 0, JInt 268, JStr ''1000'', JInt 0, JInt 0, JInt 391],
           offensive = [JInt 0, JInt 0, JInt 0, JInt 0, JInt 0, JInt 0],
           defensive = [JInt 0, JInt 0, JInt 0, JInt 0, JInt 0],
           attributes = [] \<rparr>"
proof -
  define po where "po = (example_printouts [JStr ''1000''] [JStr ''8609''] [])
             (''Defence level'' \<mapsto> [JInt 1], ''Strength level'' \<mapsto> [JInt 2])"
  have h1: "printouts \<lparr>printouts = Some po\<rparr> = Some po" by simp
  have h2: "\<forall>key\<in>set accessed_keys. po key \<noteq> None"
    by (simp add: po_def example_printouts_def accessed_keys_def skills_keys_def offensive_keys_def
        defensive_keys_def)
  have h3: "po ''Hitpoints'' = Some [JStr ''1000'']" by (simp add: po_def example_printouts_def)
  have h4: "JStr ''1000'' = JStr ''1000'' \<or> JStr ''1000'' = JInt 1000" by simp
  have h5: "po ''NPC ID'' = Some [JStr ''8609'']" by (simp add: po_def example_printouts_def)
  have h6: "JStr ''8609'' = JStr ''8609'' \<or> JStr ''8609'' = JInt 8609" by simp
  have h7: "category_excluded po = Inr False"
    by (simp add: po_def category_excluded_def getitem_def example_printouts_def accessed_keys_def)
  have h8: "image_of po = Inr ''''"
    by (simp add: po_def image_of_def getitem_def example_printouts_def)
  have e: "kept_monster (process_entry ''Vardorvis#Awakened'' \<lparr>printouts = Some po\<rparr>)
       = Some \<lparr> id_field = JStr ''8609'', name = ''Vardorvis'', version = ''Awakened'',
           image_field = '''', level = JInt 0, speed = JInt 0, size_field = JInt 0,
           skills = [JInt 0, JInt 268, JStr ''1000'', JInt 0, JInt 0, JInt 391],
           offensive = [JInt 0, JInt 0, JInt 0, JInt 0, JInt 0, JInt 0],
           defensive = [JInt 0, JInt 0, JInt 0, JInt 0, JInt 0],
           attributes = [] \<rparr>"
    by (simp add: po_def entry_eval)
  show ?thesis
    using vardorvis_awakened_override[OF h1 h2 h3 h4 h5 h6 h7 h8] e
    unfolding po_def by blast
qed


section \<open>Printouts that lack a key\<close>

text \<open>
  Claim C9, as the code has it. Let a raw record have printouts that lack a key the loop
  body reads. The record is never kept, and it is skipped neither as a record without
  printouts nor by the pruning test; it can only be skipped by a test that comes before
  the missing key is read (Challenge Mode variant, namespace, excluded category).
  When the key passes the first two tests and \<^verbatim>\<open>Category\<close> is the missing key, the
  loop body raises \<^verbatim>\<open>KeyError('Category')\<close>. When the key passes them, the categories
  do not exclude the record and the \<^verbatim>\<open>Image\<close> printout, if present, is well formed, the
  loop body raises the \<^verbatim>\<open>KeyError\<close> of a missing key. An exception of the loop body is
  not caught: the whole loop raises, wherever the record stands among the others. A
  record without printouts is skipped.
\<close>

theorem missing_key_raises_unless_skipped_before:
  assumes "printouts v = Some po" and "key \<in> set accessed_keys" and "po key = None"
  shows "kept_monster (process_entry k v) = None
     \<and> process_entry k v \<noteq> Inr (Skipped MissingPrintouts)
     \<and> process_entry k v \<noteq> Inr (Skipped Pruned)
     \<and> (\<not> py_in ''Challenge Mode'' (version_of k) \<and> \<not> re_match_namespace k
          \<and> po ''Category'' = None
          \<longrightarrow> process_entry k v = Inl (KeyError ''Category''))
     \<and> (\<not> py_in ''Challenge Mode'' (version_of k) \<and> \<not> re_match_namespace k
          \<and> category_excluded po = Inr False
          \<and> (\<forall>e. image_of po = Inl e \<longrightarrow> e = KeyError ''Image'')
          \<longrightarrow> (\<exists>key'. key' \<in> set accessed_keys \<and> po key' = None
                 \<and> process_entry k v = Inl (KeyError key')))
     \<and> (\<forall>e. process_entry k v = Inl e \<longrightarrow>
          (\<forall>pre post acc. \<exists>e'. normalize_loop (pre @ (k, v) # post) acc = Inl e'))
     \<and> process_entry k \<lparr>printouts = None\<rparr> = Inr (Skipped MissingPrintouts)"
proof -
  have nk: "process_entry k v \<noteq> Inr (Kept m)" for m
    using kept_has_all_keys[OF _ assms(1) assms(2)] assms(3) by blast
  then have a: "kept_monster (process_entry k v) = None"
    by (cases "kept_monster (process_entry k v)") (auto simp add: kept_monster_eq_Some)
  have nb: "build_monster k (version_of k) po \<noteq> Inr m0" if "category_excluded po = Inr False" for m0
  proof
    assume m0: "build_monster k (version_of k) po = Inr m0"
    show False
    proof (cases "key = ''Category''")
      case True
      then show ?thesis using category_excluded_Inr[OF that] assms(3) by simp
    next
      case False
      then show ?thesis using build_monster_keys[OF m0 assms(2)] assms(3) by simp
    qed
  qed
  have b: "process_entry k v \<noteq> Inr (Skipped MissingPrintouts)"
    using assms(1) by (auto simp add: process_entry_def bnd_eq_Inr split: if_splits)
  have c: "process_entry k v \<noteq> Inr (Skipped Pruned)"
    using assms(1) nb by (auto simp add: process_entry_def bnd_eq_Inr split: if_splits)
  have d: "process_entry k v = Inl (KeyError ''Category'')"
    if "\<not> py_in ''Challenge Mode'' (version_of k)" "\<not> re_match_namespace k" "po ''Category'' = None"
    using that assms(1) by (simp add: process_entry_def category_excluded_def getitem_def)
  have e: "\<exists>key'. key' \<in> set accessed_keys \<and> po key' = None \<and> process_entry k v = Inl (KeyError key')"
    if t: "\<not> py_in ''Challenge Mode'' (version_of k)" "\<not> re_match_namespace k"
      "category_excluded po = Inr False" "\<forall>e. image_of po = Inl e \<longrightarrow> e = KeyError ''Image''"
  proof -
    obtain err where err: "build_monster k (version_of k) po = Inl err"
      using nb[OF t(3)] by (cases "build_monster k (version_of k) po") auto
    have pe: "process_entry k v = Inl err"
      using t(1,2,3) assms(1) err by (simp add: process_entry_def)
    from build_monster_Inl[OF err] show ?thesis
    proof
      assume "\<exists>key\<in>set accessed_keys. po key = None \<and> err = KeyError key"
      then show ?thesis using pe by auto
    next
      assume i: "image_of po = Inl err"
      then have "err = KeyError ''Image''" using t(4) by blast
      moreover have "po ''Image'' = None"
        using image_of_Inl[OF i] calculation by auto
      moreover have "''Image'' \<in> set accessed_keys" by (simp add: accessed_keys_def)
      ultimately show ?thesis using pe by blast
    qed
  qed
  have f: "\<exists>e'. normalize_loop (pre @ (k, v) # post) acc = Inl e'"
    if "process_entry k v = Inl e" for e pre post acc
    using normalize_loop_raise[OF that] .
  have g: "process_entry k \<lparr>printouts = None\<rparr> = Inr (Skipped MissingPrintouts)"
    by (simp add: process_entry_def)
  show ?thesis using a b c d e f g by blast
qed

text \<open>A goblin without the \<^verbatim>\<open>Category\<close> key raises \<^verbatim>\<open>KeyError('Category')\<close>, also when a
  well-formed record comes before it; without the \<^verbatim>\<open>Hitpoints\<close> key it raises
  \<^verbatim>\<open>KeyError('Hitpoints')\<close>.\<close>

theorem missing_key_raises_unless_skipped_before_witness:
  "process_entry ''Goblin''
       \<lparr>printouts = Some ((example_printouts [JInt 5] [JInt 3029] [])(''Category'' := None))\<rparr>
     = Inl (KeyError ''Category'')
   \<and> kept_monster (process_entry ''Goblin''
       \<lparr>printouts = Some ((example_printouts [JInt 5] [JInt 3029] [])(''Category'' := None))\<rparr>) = None
   \<and> (\<exists>e. normalize [(''Cow'', \<lparr>printouts = Some (example_printouts [JInt 8] [JInt 81] [])\<rparr>),
         (''Goblin'', \<lparr>printouts = Some ((example_printouts [JInt 5] [JInt 3029] [])(''Category'' := None))\<rparr>)]
       = Inl e)
   \<and> process_entry ''Goblin''
       \<lparr>printouts = Some ((example_printouts [JInt 5] [JInt 3029] [])(''Hitpoints'' := None))\<rparr>
     = Inl (KeyError ''Hitpoints'')"
proof -
  define po where "po = (example_printouts [JInt 5] [JInt 3029] [])(''Category'' := None)"
  define v where "v = \<lparr>printouts = Some po\<rparr>"
  have h1: "printouts v = Some po" by (simp add: v_def)
  have h2: "''Category'' \<in> set accessed_keys" by (simp add: accessed_keys_def)
  have h3: "po ''Category'' = None" by (simp add: po_def)
  have k: "\<not> py_in ''Challenge Mode'' (version_of ''Goblin'') \<and> \<not> re_match_namespace ''Goblin''"
    by (simp add: version_of_def py_split1_def list_getitem_def re_match_namespace_def in_A_z_def)
  note T = missing_key_raises_unless_skipped_before[OF h1 h2 h3, of "''Goblin''"]
  have a: "process_entry ''Goblin'' v = Inl (KeyError ''Category'')" using T k h3 by blast
  have b: "kept_monster (process_entry ''Goblin'' v) = None" using T by blast
  have "\<exists>e'. normalize_loop
      ([(''Cow'', \<lparr>printouts = Some (example_printouts [JInt 8] [JInt 81] [])\<rparr>)] @ (''Goblin'', v) # [])
      ([], []) = Inl e'"
    using T a by blast
  then have c: "\<exists>e. normalize [(''Cow'', \<lparr>printouts = Some (example_printouts [JInt 8] [JInt 81] [])\<rparr>),
         (''Goblin'', v)] = Inl e"
    by (simp add: normalize_def)
  have d: "process_entry ''Goblin''
       \<lparr>printouts = Some ((example_printouts [JInt 5] [JInt 3029] [])(''Hitpoints'' := None))\<rparr>
     = Inl (KeyError ''Hitpoints'')"
    by (simp add: entry_eval)
  show ?thesis using a b c d unfolding v_def po_def by blast
qed

text \<open>Claim C9 as stated fails: a Challenge Mode variant whose printouts are the empty
  dict is skipped and the run goes on, and so is a record of an excluded category that
  has no other key.\<close>

theorem skipped_before_missing_key:
  "process_entry ''Great Olm#Challenge Mode'' \<lparr>printouts = Some Map.empty\<rparr>
     = Inr (Skipped ChallengeModeVariant)
   \<and> normalize [(''Great Olm#Challenge Mode'', \<lparr>printouts = Some Map.empty\<rparr>)] = Inr ([], [])
   \<and> process_entry ''Goblin''
       \<lparr>printouts = Some [''Category'' \<mapsto> [JObj [(''fulltext'', JStr ''Category:Discontinued content'')]]]\<rparr>
     = Inr (Skipped ExcludedCategory)"
  by (simp add: normalize_def entry_eval)


section \<open>The image downloader: one pass and the whole loop\<close>

text \<open>What one pass of the loop body does, when it ends.\<close>

lemma download_step_cases:
  assumes "download_step locate get img s = Inr s1"
  shows "(isfile locate (files s) (IMG_PATH @ img)
            \<and> s1 = s\<lparr>skipped_img_dls := skipped_img_dls s + 1\<rparr>)
     \<or> (\<not> isfile locate (files s) (IMG_PATH @ img)
            \<and> (\<exists>body l. get img = HttpResponse 200 body \<and> locate (IMG_PATH @ img) = Some l
                  \<and> files s l = None
                  \<and> s1 = s\<lparr>files := (files s)(l \<mapsto> body), writes := writes s @ [IMG_PATH @ img],
                            success_img_dls := success_img_dls s + 1\<rparr>))
     \<or> (\<not> isfile locate (files s) (IMG_PATH @ img)
            \<and> (\<exists>status body. get img = HttpResponse status body \<and> status \<noteq> 200)
            \<and> s1 = s\<lparr>failed_img_dls := failed_img_dls s + 1\<rparr>)"
proof (cases "isfile locate (files s) (IMG_PATH @ img)")
  case True
  then show ?thesis using assms by (simp add: download_step_def)
next
  case nf: False
  show ?thesis
  proof (cases "get img")
    case RequestFailed
    then show ?thesis using assms nf by (simp add: download_step_def)
  next
    case (HttpResponse status body)
    show ?thesis
    proof (cases "status = 200")
      case False
      then show ?thesis using assms nf HttpResponse by (simp add: download_step_def)
    next
      case True
      show ?thesis
      proof (cases "locate (IMG_PATH @ img)")
        case None
        then show ?thesis using assms nf HttpResponse True by (simp add: download_step_def)
      next
        case (Some l)
        have "files s l = None" using nf Some by (simp add: isfile_def)
        then show ?thesis using assms nf HttpResponse True Some by (simp add: download_step_def)
      qed
    qed
  qed
qed

lemma download_step_Inl:
  assumes "download_step locate get img s = Inl e"
  shows "\<not> isfile locate (files s) (IMG_PATH @ img)
     \<and> ((get img = RequestFailed \<and> e = RequestException)
         \<or> ((\<exists>body. get img = HttpResponse 200 body) \<and> locate (IMG_PATH @ img) = None \<and> e = OSError))"
  using assms
  by (auto simp add: download_step_def split: if_splits http_result.splits option.splits)

lemma download_step_files_kept:
  assumes "download_step locate get img s = Inr s1" and "files s l = Some c"
  shows "files s1 l = Some c"
  using download_step_cases[OF assms(1)] assms(2) by auto

lemma download_step_isfile_kept:
  assumes "download_step locate get img s = Inr s1" and "isfile locate (files s) p"
  shows "isfile locate (files s1) p"
proof -
  from assms(2) obtain l c where l: "locate p = Some l" "files s l = Some c"
    by (auto simp add: isfile_def split: option.splits)
  then show ?thesis using download_step_files_kept[OF assms(1) l(2)] by (simp add: isfile_def)
qed

lemma download_loop_files_kept:
  assumes "download_loop locate get imgs s = Inr s'" and "files s l = Some c"
  shows "files s' l = Some c"
  using assms
proof (induction imgs arbitrary: s)
  case Nil
  then show ?case by simp
next
  case (Cons img imgs)
  from Cons.prems(1) obtain s1 where s1: "download_step locate get img s = Inr s1"
      and rest: "download_loop locate get imgs s1 = Inr s'"
    by (auto simp add: bnd_eq_Inr)
  show ?case using Cons.IH[OF rest download_step_files_kept[OF s1 Cons.prems(2)]] .
qed

lemma download_loop_isfile_kept:
  assumes "download_loop locate get imgs s = Inr s'" and "isfile locate (files s) p"
  shows "isfile locate (files s') p"
proof -
  from assms(2) obtain l c where l: "locate p = Some l" "files s l = Some c"
    by (auto simp add: isfile_def split: option.splits)
  then show ?thesis using download_loop_files_kept[OF assms(1) l(2)] by (simp add: isfile_def)
qed

text \<open>Every pass adds one to exactly one counter.\<close>

lemma download_step_one_counter:
  assumes "download_step locate get img s = Inr s1"
  shows "(success_img_dls s1, failed_img_dls s1, skipped_img_dls s1)
       \<in> {(success_img_dls s + 1, failed_img_dls s, skipped_img_dls s),
          (success_img_dls s, failed_img_dls s + 1, skipped_img_dls s),
          (success_img_dls s, failed_img_dls s, skipped_img_dls s + 1)}"
  using download_step_cases[OF assms] by auto

lemma download_loop_counters:
  assumes "download_loop locate get imgs s = Inr s'"
  shows "success_img_dls s' + failed_img_dls s' + skipped_img_dls s'
       = success_img_dls s + failed_img_dls s + skipped_img_dls s + length imgs"
  using assms
proof (induction imgs arbitrary: s)
  case Nil
  then show ?case by simp
next
  case (Cons img imgs)
  from Cons.prems(1) obtain s1 where s1: "download_step locate get img s = Inr s1"
      and rest: "download_loop locate get imgs s1 = Inr s'"
    by (auto simp add: bnd_eq_Inr)
  have "success_img_dls s1 + failed_img_dls s1 + skipped_img_dls s1
      = success_img_dls s + failed_img_dls s + skipped_img_dls s + 1"
    using download_step_one_counter[OF s1] by auto
  then show ?case using Cons.IH[OF rest] by simp
qed

text \<open>A name whose path names no file when the loop has ended was answered with a status
  other than 200, and was counted as failed.\<close>

lemma download_step_not_file_after:
  assumes "download_step locate get img s = Inr s1"
    and "\<not> isfile locate (files s1) (IMG_PATH @ img)"
  shows "(\<exists>status body. get img = HttpResponse status body \<and> status \<noteq> 200)
     \<and> s1 = s\<lparr>failed_img_dls := failed_img_dls s + 1\<rparr>"
proof -
  from download_step_cases[OF assms(1)] show ?thesis
  proof (elim disjE conjE exE)
    assume "isfile locate (files s) (IMG_PATH @ img)"
    then have "isfile locate (files s1) (IMG_PATH @ img)"
      by (rule download_step_isfile_kept[OF assms(1)])
    then show ?thesis using assms(2) by simp
  next
    fix body l
    assume "locate (IMG_PATH @ img) = Some l"
      and "s1 = s\<lparr>files := (files s)(l \<mapsto> body), writes := writes s @ [IMG_PATH @ img],
                  success_img_dls := success_img_dls s + 1\<rparr>"
    then have "isfile locate (files s1) (IMG_PATH @ img)" by (simp add: isfile_def)
    then show ?thesis using assms(2) by simp
  next
    fix status body
    assume "get img = HttpResponse status body" "status \<noteq> 200"
      and "s1 = s\<lparr>failed_img_dls := failed_img_dls s + 1\<rparr>"
    then show ?thesis by blast
  qed
qed

lemma download_loop_not_file_after:
  assumes "download_loop locate get imgs s = Inr s'" and "n \<in> set imgs"
    and "\<not> isfile locate (files s') (IMG_PATH @ n)"
  shows "\<exists>status body. get n = HttpResponse status body \<and> status \<noteq> 200"
  using assms
proof (induction imgs arbitrary: s)
  case Nil
  then show ?case by simp
next
  case (Cons img imgs)
  from Cons.prems(1) obtain s1 where s1: "download_step locate get img s = Inr s1"
      and rest: "download_loop locate get imgs s1 = Inr s'"
    by (auto simp add: bnd_eq_Inr)
  show ?case
  proof (cases "n = img")
    case True
    have "\<not> isfile locate (files s1) (IMG_PATH @ img)"
      using download_loop_isfile_kept[OF rest] Cons.prems(3) True by blast
    then show ?thesis using download_step_not_file_after[OF s1] True by blast
  next
    case False
    then have "n \<in> set imgs" using Cons.prems(2) by simp
    then show ?thesis using Cons.IH[OF rest _ Cons.prems(3)] by blast
  qed
qed

lemma download_step_failed_mono:
  assumes "download_step locate get img s = Inr s1"
  shows "failed_img_dls s \<le> failed_img_dls s1"
  using download_step_cases[OF assms] by auto

lemma download_loop_failed_lower:
  assumes "download_loop locate get imgs s = Inr s'"
  shows "failed_img_dls s + length (filter (\<lambda>n. \<not> isfile locate (files s') (IMG_PATH @ n)) imgs)
       \<le> failed_img_dls s'"
  using assms
proof (induction imgs arbitrary: s)
  case Nil
  then show ?case by simp
next
  case (Cons img imgs)
  from Cons.prems(1) obtain s1 where s1: "download_step locate get img s = Inr s1"
      and rest: "download_loop locate get imgs s1 = Inr s'"
    by (auto simp add: bnd_eq_Inr)
  note IH = Cons.IH[OF rest]
  show ?case
  proof (cases "isfile locate (files s') (IMG_PATH @ img)")
    case True
    then show ?thesis using IH download_step_failed_mono[OF s1] by simp
  next
    case False
    then have "\<not> isfile locate (files s1) (IMG_PATH @ img)"
      using download_loop_isfile_kept[OF rest] by blast
    then have "failed_img_dls s1 = failed_img_dls s + 1"
      using download_step_not_file_after[OF s1] by auto
    then show ?thesis using IH False by simp
  qed
qed

text \<open>A run on a file system in which every name either has its file or is answered
  with a status other than 200: nothing is written.\<close>

lemma download_loop_settled:
  assumes "\<forall>n\<in>set imgs. \<not> isfile locate (files s) (IMG_PATH @ n) \<longrightarrow>
             (\<exists>status body. get n = HttpResponse status body \<and> status \<noteq> 200)"
  shows "download_loop locate get imgs s =
           Inr (s\<lparr>failed_img_dls := failed_img_dls s
                     + length (filter (\<lambda>n. \<not> isfile locate (files s) (IMG_PATH @ n)) imgs),
                   skipped_img_dls := skipped_img_dls s
                     + length (filter (\<lambda>n. isfile locate (files s) (IMG_PATH @ n)) imgs)\<rparr>)"
  using assms
proof (induction imgs arbitrary: s)
  case Nil
  then show ?case by simp
next
  case (Cons img imgs)
  show ?case
  proof (cases "isfile locate (files s) (IMG_PATH @ img)")
    case True
    define s1 where "s1 = s\<lparr>skipped_img_dls := skipped_img_dls s + 1\<rparr>"
    have st: "download_step locate get img s = Inr s1"
      using True by (simp add: download_step_def s1_def)
    have f: "files s1 = files s" by (simp add: s1_def)
    have "\<forall>n\<in>set imgs. \<not> isfile locate (files s1) (IMG_PATH @ n) \<longrightarrow>
             (\<exists>status body. get n = HttpResponse status body \<and> status \<noteq> 200)"
      using Cons.prems by (simp add: f)
    from Cons.IH[OF this] show ?thesis
      using True by (simp add: st f) (simp add: s1_def)
  next
    case False
    then obtain status body where r: "get img = HttpResponse status body" "status \<noteq> 200"
      using Cons.prems by auto
    define s1 where "s1 = s\<lparr>failed_img_dls := failed_img_dls s + 1\<rparr>"
    have st: "download_step locate get img s = Inr s1"
      using False r by (simp add: download_step_def s1_def)
    have f: "files s1 = files s" by (simp add: s1_def)
    have "\<forall>n\<in>set imgs. \<not> isfile locate (files s1) (IMG_PATH @ n) \<longrightarrow>
             (\<exists>status body. get n = HttpResponse status body \<and> status \<noteq> 200)"
      using Cons.prems by (simp add: f)
    from Cons.IH[OF this] show ?thesis
      using False by (simp add: st f) (simp add: s1_def)
  qed
qed

text \<open>The loop changes the file system only at the locations its names name.\<close>

lemma download_loop_frame:
  assumes "download_loop locate get imgs s = Inr s'"
    and "\<forall>n\<in>set imgs. locate (IMG_PATH @ n) \<noteq> Some l"
  shows "files s' l = files s l"
  using assms
proof (induction imgs arbitrary: s)
  case Nil
  then show ?case by simp
next
  case (Cons img imgs)
  from Cons.prems(1) obtain s1 where s1: "download_step locate get img s = Inr s1"
      and rest: "download_loop locate get imgs s1 = Inr s'"
    by (auto simp add: bnd_eq_Inr)
  have "files s1 l = files s l"
    using download_step_cases[OF s1] Cons.prems(2) by auto
  moreover have "files s' l = files s1 l"
    using Cons.IH[OF rest] Cons.prems(2) by simp
  ultimately show ?case by simp
qed

lemma download_step_counts:
  assumes "download_step locate get img s = Inr s1"
  shows "success_img_dls s1 = success_img_dls s
           + (if \<not> isfile locate (files s) (IMG_PATH @ img) \<and> fetched get img \<noteq> None then 1 else 0)"
    and "failed_img_dls s1 = failed_img_dls s
           + (if \<not> isfile locate (files s) (IMG_PATH @ img) \<and> fetched get img = None then 1 else 0)"
    and "skipped_img_dls s1 = skipped_img_dls s
           + (if isfile locate (files s) (IMG_PATH @ img) then 1 else 0)"
    and "isfile locate (files s1) (IMG_PATH @ img)
           \<longleftrightarrow> isfile locate (files s) (IMG_PATH @ img) \<or> fetched get img \<noteq> None"
  using download_step_cases[OF assms]
  by (auto simp add: fetched_def isfile_def split: option.splits)

lemma no_alias_Cons:
  assumes "no_alias locate (img # imgs)"
  shows "no_alias locate imgs"
    and "\<And>m l. m \<in> set imgs \<Longrightarrow> m \<noteq> img \<Longrightarrow> locate (IMG_PATH @ img) = Some l
           \<Longrightarrow> locate (IMG_PATH @ m) \<noteq> Some l"
  using assms by (auto simp add: no_alias_def)

text \<open>When no two names name one location, the branch a name takes is decided by the
  file system at the start of the run and by the wiki's answer.\<close>

lemma download_loop_no_alias:
  assumes "distinct imgs" and "no_alias locate imgs"
    and "download_loop locate get imgs s = Inr s'"
  shows "success_img_dls s' = success_img_dls s
           + length (filter (\<lambda>n. \<not> isfile locate (files s) (IMG_PATH @ n) \<and> fetched get n \<noteq> None) imgs)
     \<and> failed_img_dls s' = failed_img_dls s
           + length (filter (\<lambda>n. \<not> isfile locate (files s) (IMG_PATH @ n) \<and> fetched get n = None) imgs)
     \<and> skipped_img_dls s' = skipped_img_dls s
           + length (filter (\<lambda>n. isfile locate (files s) (IMG_PATH @ n)) imgs)
     \<and> (\<forall>n\<in>set imgs. isfile locate (files s') (IMG_PATH @ n)
           \<longleftrightarrow> isfile locate (files s) (IMG_PATH @ n) \<or> fetched get n \<noteq> None)"
  using assms
proof (induction imgs arbitrary: s)
  case Nil
  then show ?case by simp
next
  case (Cons img imgs)
  from Cons.prems(3) obtain s1 where s1: "download_step locate get img s = Inr s1"
      and rest: "download_loop locate get imgs s1 = Inr s'"
    by (auto simp add: bnd_eq_Inr)
  have d: "distinct imgs" and ni: "img \<notin> set imgs" using Cons.prems(1) by simp_all
  note NA = no_alias_Cons[OF Cons.prems(2)]
  note IH = Cons.IH[OF d NA(1) rest]
  note S = download_step_counts[OF s1]
  have other: "locate (IMG_PATH @ m) \<noteq> Some l"
    if "m \<in> set imgs" "locate (IMG_PATH @ img) = Some l" for m l
    using NA(2)[OF that(1) _ that(2)] that(1) ni by auto
  have same: "isfile locate (files s1) (IMG_PATH @ m) = isfile locate (files s) (IMG_PATH @ m)"
    if m: "m \<in> set imgs" for m
  proof (cases "locate (IMG_PATH @ m)")
    case None
    then show ?thesis by (simp add: isfile_def)
  next
    case (Some lm)
    have "files s1 lm = files s lm"
      using download_step_cases[OF s1] other[OF m] Some by auto
    then show ?thesis using Some by (simp add: isfile_def)
  qed
  have f1: "filter (\<lambda>n. \<not> isfile locate (files s1) (IMG_PATH @ n) \<and> fetched get n \<noteq> None) imgs
          = filter (\<lambda>n. \<not> isfile locate (files s) (IMG_PATH @ n) \<and> fetched get n \<noteq> None) imgs"
    by (rule filter_cong) (auto simp add: same)
  have f2: "filter (\<lambda>n. \<not> isfile locate (files s1) (IMG_PATH @ n) \<and> fetched get n = None) imgs
          = filter (\<lambda>n. \<not> isfile locate (files s) (IMG_PATH @ n) \<and> fetched get n = None) imgs"
    by (rule filter_cong) (auto simp add: same)
  have f3: "filter (\<lambda>n. isfile locate (files s1) (IMG_PATH @ n)) imgs
          = filter (\<lambda>n. isfile locate (files s) (IMG_PATH @ n)) imgs"
    by (rule filter_cong) (auto simp add: same)
  have su: "success_img_dls s' = success_img_dls s
           + length (filter (\<lambda>n. \<not> isfile locate (files s) (IMG_PATH @ n) \<and> fetched get n \<noteq> None)
               (img # imgs))"
    using IH S(1) f1 by simp
  have fa: "failed_img_dls s' = failed_img_dls s
           + length (filter (\<lambda>n. \<not> isfile locate (files s) (IMG_PATH @ n) \<and> fetched get n = None)
               (img # imgs))"
    using IH S(2) f2 by simp
  have sk: "skipped_img_dls s' = skipped_img_dls s
           + length (filter (\<lambda>n. isfile locate (files s) (IMG_PATH @ n)) (img # imgs))"
    using IH S(3) f3 by simp
  have here: "isfile locate (files s') (IMG_PATH @ img) = isfile locate (files s1) (IMG_PATH @ img)"
  proof (cases "locate (IMG_PATH @ img)")
    case None
    then show ?thesis by (simp add: isfile_def)
  next
    case (Some l)
    have "\<forall>n\<in>set imgs. locate (IMG_PATH @ n) \<noteq> Some l"
      using other Some by blast
    then have "files s' l = files s1 l"
      by (rule download_loop_frame[OF rest])
    then show ?thesis using Some by (simp add: isfile_def)
  qed
  have fi: "\<forall>n\<in>set (img # imgs). isfile locate (files s') (IMG_PATH @ n)
           \<longleftrightarrow> isfile locate (files s) (IMG_PATH @ n) \<or> fetched get n \<noteq> None"
  proof
    fix n assume n: "n \<in> set (img # imgs)"
    show "isfile locate (files s') (IMG_PATH @ n)
           \<longleftrightarrow> isfile locate (files s) (IMG_PATH @ n) \<or> fetched get n \<noteq> None"
    proof (cases "n = img")
      case True
      then show ?thesis using here S(4) by simp
    next
      case False
      then have m: "n \<in> set imgs" using n by simp
      then show ?thesis using IH same[OF m] by simp
    qed
  qed
  show ?case using su fa sk fi by blast
qed

lemma three_way_count:
  "length (filter (\<lambda>n. \<not> c n \<and> p n) xs) + length (filter (\<lambda>n. \<not> c n \<and> \<not> p n) xs)
     + length (filter (\<lambda>n. c n) xs) = length xs"
  by (induction xs) auto

lemma distinct_filter_card:
  assumes "distinct xs" and "set xs = A"
  shows "length (filter P xs) = card {n \<in> A. P n}"
proof -
  have "length (filter P xs) = card ({x. P x} \<inter> set xs)"
    using assms(1) by (rule distinct_length_filter)
  also have "{x. P x} \<inter> set xs = {n \<in> A. P n}"
    using assms(2) by auto
  finally show ?thesis .
qed

text \<open>The definitions that evaluate a concrete run of the downloader.\<close>

lemmas download_eval =
  download_images_def download_step_def isfile_def IMG_PATH_def example_wiki_def
  example_locate_def example_cache_def run_counts_def run_files_def run_writes_def


section \<open>The three counters\<close>

text \<open>
  Claim C10. When the download loop has run over the names of \<^verbatim>\<open>set(required_imgs)\<close>
  (in any order, each once) and has ended, the three counters add up to the number of
  distinct names, and every pass of the loop body adds one to exactly one of the three
  counters and leaves the other two as they were. When moreover no two names name the
  same file, \<^verbatim>\<open>skipped_img_dls\<close> counts the names whose file was there before the run,
  \<^verbatim>\<open>success_img_dls\<close> the other names that were answered with status 200, and
  \<^verbatim>\<open>failed_img_dls\<close> the other names that were answered otherwise.
\<close>

theorem counters_partition_images:
  assumes "distinct imgs" and "set imgs = set required_imgs"
    and "download_images locate get imgs fs = Inr s"
  shows "success_img_dls s + failed_img_dls s + skipped_img_dls s = card (set required_imgs)
     \<and> (\<forall>img s0 s1. download_step locate get img s0 = Inr s1 \<longrightarrow>
           (success_img_dls s1, failed_img_dls s1, skipped_img_dls s1)
             \<in> {(success_img_dls s0 + 1, failed_img_dls s0, skipped_img_dls s0),
                (success_img_dls s0, failed_img_dls s0 + 1, skipped_img_dls s0),
                (success_img_dls s0, failed_img_dls s0, skipped_img_dls s0 + 1)})
     \<and> (no_alias locate imgs \<longrightarrow>
           success_img_dls s = card {n \<in> set required_imgs.
               \<not> isfile locate fs (IMG_PATH @ n) \<and> fetched get n \<noteq> None}
           \<and> failed_img_dls s = card {n \<in> set required_imgs.
               \<not> isfile locate fs (IMG_PATH @ n) \<and> fetched get n = None}
           \<and> skipped_img_dls s = card {n \<in> set required_imgs. isfile locate fs (IMG_PATH @ n)})"
proof -
  define s0 :: "'a dl_state" where "s0 = \<lparr>files = fs, writes = [], success_img_dls = 0,
    failed_img_dls = 0, skipped_img_dls = 0\<rparr>"
  have s0: "files s0 = fs" "success_img_dls s0 = 0" "failed_img_dls s0 = 0" "skipped_img_dls s0 = 0"
    by (simp_all add: s0_def)
  have run: "download_loop locate get imgs s0 = Inr s"
    using assms(3) by (simp add: download_images_def s0_def)
  have "success_img_dls s + failed_img_dls s + skipped_img_dls s = length imgs"
    using download_loop_counters[OF run] by (simp add: s0)
  moreover have "length imgs = card (set required_imgs)"
    using assms(1) assms(2) distinct_card[of imgs] by simp
  ultimately have total: "success_img_dls s + failed_img_dls s + skipped_img_dls s
      = card (set required_imgs)" by simp
  have one: "(success_img_dls s1, failed_img_dls s1, skipped_img_dls s1)
             \<in> {(success_img_dls t + 1, failed_img_dls t, skipped_img_dls t),
                (success_img_dls t, failed_img_dls t + 1, skipped_img_dls t),
                (success_img_dls t, failed_img_dls t, skipped_img_dls t + 1)}"
    if "download_step locate get img t = Inr s1" for img t s1
    using download_step_one_counter[OF that] .
  have classes: "success_img_dls s = card {n \<in> set required_imgs.
               \<not> isfile locate fs (IMG_PATH @ n) \<and> fetched get n \<noteq> None}
           \<and> failed_img_dls s = card {n \<in> set required_imgs.
               \<not> isfile locate fs (IMG_PATH @ n) \<and> fetched get n = None}
           \<and> skipped_img_dls s = card {n \<in> set required_imgs. isfile locate fs (IMG_PATH @ n)}"
    if na: "no_alias locate imgs"
    using download_loop_no_alias[OF assms(1) na run]
    by (simp add: s0 distinct_filter_card[OF assms(1) assms(2)])
  show ?thesis using total one classes by blast
qed

text \<open>Three distinct names among four required images: one stored, one failed, one
  skipped. And two names of one file: the first is stored, the second skipped.\<close>

theorem counters_partition_images_witness:
  "run_counts (download_images example_locate example_wiki
       [''Imp.png'', ''Goblin.png'', ''Cow.png''] example_cache) = Some (1, 1, 1)
   \<and> card (set [''Goblin.png'', ''Cow.png'', ''Goblin.png'', ''Imp.png'']) = 1 + 1 + 1
   \<and> run_counts (download_images example_locate example_wiki
       [''./Goblin.png'', ''Goblin.png''] Map.empty) = Some (1, 0, 1)
   \<and> card (set [''Goblin.png'', ''./Goblin.png'']) = 1 + 0 + 1"
proof -
  define s where "s = \<lparr>files = example_cache(IMG_PATH @ ''Goblin.png'' \<mapsto> ''PNG-goblin''),
    writes = [IMG_PATH @ ''Goblin.png''], success_img_dls = 1, failed_img_dls = 1,
    skipped_img_dls = (1::nat)\<rparr>"
  define t where "t = \<lparr>files = [IMG_PATH @ ''Goblin.png'' \<mapsto> ''PNG-other''],
    writes = [IMG_PATH @ ''./Goblin.png''], success_img_dls = 1, failed_img_dls = 0,
    skipped_img_dls = (1::nat)\<rparr>"
  have h1: "distinct [''Imp.png'', ''Goblin.png'', ''Cow.png'']" by simp
  have h2: "set [''Imp.png'', ''Goblin.png'', ''Cow.png'']
      = set [''Goblin.png'', ''Cow.png'', ''Goblin.png'', ''Imp.png'']" by auto
  have h3: "download_images example_locate example_wiki
      [''Imp.png'', ''Goblin.png'', ''Cow.png''] example_cache = Inr s"
    by (simp add: s_def download_images_def download_step_def isfile_def IMG_PATH_def
        example_wiki_def example_locate_def example_cache_def)
  have g1: "distinct [''./Goblin.png'', ''Goblin.png'']" by simp
  have g2: "set [''./Goblin.png'', ''Goblin.png''] = set [''Goblin.png'', ''./Goblin.png'']" by auto
  have g3: "download_images example_locate example_wiki [''./Goblin.png'', ''Goblin.png''] Map.empty = Inr t"
    by (simp add: t_def download_images_def download_step_def isfile_def IMG_PATH_def
        example_wiki_def example_locate_def)
  have "success_img_dls s + failed_img_dls s + skipped_img_dls s
      = card (set [''Goblin.png'', ''Cow.png'', ''Goblin.png'', ''Imp.png''])"
    using counters_partition_images[OF h1 h2 h3] by blast
  then have a: "card (set [''Goblin.png'', ''Cow.png'', ''Goblin.png'', ''Imp.png'']) = 1 + 1 + 1"
    by (simp add: s_def)
  have "success_img_dls t + failed_img_dls t + skipped_img_dls t
      = card (set [''Goblin.png'', ''./Goblin.png''])"
    using counters_partition_images[OF g1 g2 g3] by blast
  then have b: "card (set [''Goblin.png'', ''./Goblin.png'']) = 1 + 0 + 1"
    by (simp add: t_def)
  have c: "run_counts (download_images example_locate example_wiki
       [''Imp.png'', ''Goblin.png'', ''Cow.png''] example_cache) = Some (1, 1, 1)"
    by (simp add: h3 run_counts_def s_def)
  have d: "run_counts (download_images example_locate example_wiki
       [''./Goblin.png'', ''Goblin.png''] Map.empty) = Some (1, 0, 1)"
    by (simp add: g3 run_counts_def t_def)
  show ?thesis using a b c d by blast
qed


section \<open>What a download stores\<close>





section \<open>Running the downloader twice\<close>

text \<open>
  Claim C4, as the code has it. Run the downloader twice on the same set of names (the
  two loops may meet the names in different orders), the second run on the file system
  the first one left, against a wiki that answers each name as before. The second run
  ends, writes no file and leaves the file system as it was. It skips exactly the names
  whose file is there after the first run, which are at least the names the first run
  skipped or stored, and it fails on the others, which the first run failed on too (it
  asks for them again). Its skipped count is the number of names when the first run had
  no failure. When no two names name the same file, its skipped count is the first
  run's skipped count plus its succeeded count, and its failed count is that of the
  first run.
\<close>

theorem second_run_skips_what_first_run_stored:
  assumes "distinct order1" and "distinct order2"
    and "set order1 = names" and "set order2 = names"
    and "download_images locate get order1 fs = Inr s1"
  shows "\<exists>s2. download_images locate get order2 (files s1) = Inr s2
     \<and> writes s2 = [] \<and> files s2 = files s1 \<and> success_img_dls s2 = 0
     \<and> skipped_img_dls s2 = card {n \<in> names. isfile locate (files s1) (IMG_PATH @ n)}
     \<and> failed_img_dls s2 = card {n \<in> names. \<not> isfile locate (files s1) (IMG_PATH @ n)}
     \<and> skipped_img_dls s1 + success_img_dls s1 \<le> skipped_img_dls s2
     \<and> failed_img_dls s2 \<le> failed_img_dls s1
     \<and> (failed_img_dls s1 = 0 \<longrightarrow> skipped_img_dls s2 = card names)
     \<and> (no_alias locate order1 \<longrightarrow>
           skipped_img_dls s2 = skipped_img_dls s1 + success_img_dls s1
           \<and> failed_img_dls s2 = failed_img_dls s1)"
proof -
  define i1 :: "'a dl_state" where "i1 = \<lparr>files = fs, writes = [], success_img_dls = 0,
    failed_img_dls = 0, skipped_img_dls = 0\<rparr>"
  define i2 :: "'a dl_state" where "i2 = \<lparr>files = files s1, writes = [], success_img_dls = 0,
    failed_img_dls = 0, skipped_img_dls = 0\<rparr>"
  define s2 where "s2 = i2\<lparr>failed_img_dls := failed_img_dls i2
                     + length (filter (\<lambda>n. \<not> isfile locate (files i2) (IMG_PATH @ n)) order2),
                   skipped_img_dls := skipped_img_dls i2
                     + length (filter (\<lambda>n. isfile locate (files i2) (IMG_PATH @ n)) order2)\<rparr>"
  have i1: "files i1 = fs" "success_img_dls i1 = 0" "failed_img_dls i1 = 0" "skipped_img_dls i1 = 0"
    by (simp_all add: i1_def)
  have i2: "files i2 = files s1" "writes i2 = []" "success_img_dls i2 = 0" "failed_img_dls i2 = 0"
    "skipped_img_dls i2 = 0"
    by (simp_all add: i2_def)
  have run1: "download_loop locate get order1 i1 = Inr s1"
    using assms(5) by (simp add: download_images_def i1_def)
  have settled: "\<forall>n\<in>set order2. \<not> isfile locate (files i2) (IMG_PATH @ n) \<longrightarrow>
             (\<exists>status body. get n = HttpResponse status body \<and> status \<noteq> 200)"
    using download_loop_not_file_after[OF run1] assms(3) assms(4) by (simp add: i2)
  have run2: "download_images locate get order2 (files s1) = Inr s2"
    using download_loop_settled[OF settled] by (simp add: download_images_def i2_def s2_def)
  have w: "writes s2 = []" and fi: "files s2 = files s1" and su: "success_img_dls s2 = 0"
    by (simp_all add: s2_def i2)
  have fa: "failed_img_dls s2 = card {n \<in> names. \<not> isfile locate (files s1) (IMG_PATH @ n)}"
    by (simp add: s2_def i2 distinct_filter_card[OF assms(2) assms(4)])
  have sk: "skipped_img_dls s2 = card {n \<in> names. isfile locate (files s1) (IMG_PATH @ n)}"
    by (simp add: s2_def i2 distinct_filter_card[OF assms(2) assms(4)])
  have len1: "length order1 = card names" using assms(1) assms(3) distinct_card[of order1] by simp
  have len2: "length order2 = card names" using assms(2) assms(4) distinct_card[of order2] by simp
  have tot1: "success_img_dls s1 + failed_img_dls s1 + skipped_img_dls s1 = card names"
    using download_loop_counters[OF run1] by (simp add: i1 len1)
  have tot2: "failed_img_dls s2 + skipped_img_dls s2 = card names"
    using sum_length_filter_compl[of "\<lambda>n. isfile locate (files s1) (IMG_PATH @ n)" order2]
    by (simp add: s2_def i2 len2)
  have "length (filter (\<lambda>n. \<not> isfile locate (files s1) (IMG_PATH @ n)) order1) \<le> failed_img_dls s1"
    using download_loop_failed_lower[OF run1] by (simp add: i1)
  then have le: "failed_img_dls s2 \<le> failed_img_dls s1"
    by (simp add: fa distinct_filter_card[OF assms(1) assms(3)])
  have ge: "skipped_img_dls s1 + success_img_dls s1 \<le> skipped_img_dls s2"
    using le tot1 tot2 by simp
  have all: "skipped_img_dls s2 = card names" if "failed_img_dls s1 = 0"
    using that le tot2 by simp
  have eq: "skipped_img_dls s2 = skipped_img_dls s1 + success_img_dls s1
           \<and> failed_img_dls s2 = failed_img_dls s1"
    if na: "no_alias locate order1"
  proof -
    note N = download_loop_no_alias[OF assms(1) na run1, unfolded i1]
    have "{n \<in> names. \<not> isfile locate (files s1) (IMG_PATH @ n)}
        = {n \<in> names. \<not> isfile locate fs (IMG_PATH @ n) \<and> fetched get n = None}"
      using N assms(3) by auto
    then have "failed_img_dls s2 = failed_img_dls s1"
      using N by (simp add: fa distinct_filter_card[OF assms(1) assms(3)])
    then show ?thesis using tot1 tot2 by simp
  qed
  show ?thesis
    by (rule exI[of _ s2]) (use run2 w fi su sk fa ge le all eq in simp)
qed

text \<open>Two names, one cached and one stored by the first run: the second run, in the
  other order, skips both and writes nothing. And two names of one file, the first
  answered with 404 and the second with 200: the first run fails once and stores once,
  the second run skips both.\<close>

theorem second_run_skips_what_first_run_stored_witness:
  "run_counts (download_images example_locate example_wiki [''Goblin.png'', ''Imp.png''] example_cache)
     = Some (1, 0, 1)
   \<and> (\<exists>s2. download_images example_locate example_wiki [''Imp.png'', ''Goblin.png'']
          (run_files (download_images example_locate example_wiki [''Goblin.png'', ''Imp.png'']
             example_cache)) = Inr s2
        \<and> writes s2 = [] \<and> success_img_dls s2 = 0 \<and> failed_img_dls s2 = 0
        \<and> skipped_img_dls s2 = 2)
   \<and> run_counts (download_images example_locate example_wiki [''Cow.png'', ''./Cow.png''] Map.empty)
     = Some (1, 1, 0)
   \<and> (\<exists>s2. download_images example_locate example_wiki [''./Cow.png'', ''Cow.png'']
          (run_files (download_images example_locate example_wiki [''Cow.png'', ''./Cow.png'']
             Map.empty)) = Inr s2
        \<and> writes s2 = [] \<and> success_img_dls s2 = 0 \<and> failed_img_dls s2 \<le> 1
        \<and> 1 \<le> skipped_img_dls s2)
   \<and> run_counts (download_images example_locate example_wiki [''./Cow.png'', ''Cow.png'']
          (run_files (download_images example_locate example_wiki [''Cow.png'', ''./Cow.png'']
             Map.empty))) = Some (0, 0, 2)"
proof -
  define s1 where "s1 = \<lparr>files = example_cache(IMG_PATH @ ''Goblin.png'' \<mapsto> ''PNG-goblin''),
    writes = [IMG_PATH @ ''Goblin.png''], success_img_dls = 1, failed_img_dls = 0,
    skipped_img_dls = (1::nat)\<rparr>"
  define t1 where "t1 = \<lparr>files = [IMG_PATH @ ''Cow.png'' \<mapsto> ''PNG-other''],
    writes = [IMG_PATH @ ''./Cow.png''], success_img_dls = 1, failed_img_dls = 1,
    skipped_img_dls = (0::nat)\<rparr>"
  have h1: "distinct [''Goblin.png'', ''Imp.png'']" and h2: "distinct [''Imp.png'', ''Goblin.png'']"
    by simp_all
  have h3: "set [''Goblin.png'', ''Imp.png''] = {''Goblin.png'', ''Imp.png''}"
    and h4: "set [''Imp.png'', ''Goblin.png''] = {''Goblin.png'', ''Imp.png''}" by auto
  have h5: "download_images example_locate example_wiki [''Goblin.png'', ''Imp.png''] example_cache = Inr s1"
    by (simp add: s1_def download_images_def download_step_def isfile_def IMG_PATH_def
        example_wiki_def example_locate_def example_cache_def)
  have g1: "distinct [''Cow.png'', ''./Cow.png'']" and g2: "distinct [''./Cow.png'', ''Cow.png'']"
    by simp_all
  have g3: "set [''Cow.png'', ''./Cow.png''] = {''Cow.png'', ''./Cow.png''}"
    and g4: "set [''./Cow.png'', ''Cow.png''] = {''Cow.png'', ''./Cow.png''}" by auto
  have g5: "download_images example_locate example_wiki [''Cow.png'', ''./Cow.png''] Map.empty = Inr t1"
    by (simp add: t1_def download_images_def download_step_def isfile_def IMG_PATH_def
        example_wiki_def example_locate_def)
  have f: "failed_img_dls s1 = 0" "skipped_img_dls s1 + success_img_dls s1 = 2"
    and ft: "failed_img_dls t1 = 1" "skipped_img_dls t1 + success_img_dls t1 = 1"
    by (simp_all add: s1_def t1_def)
  have r: "run_files (download_images example_locate example_wiki [''Goblin.png'', ''Imp.png'']
      example_cache) = files s1"
    by (simp add: h5 run_files_def)
  have rt: "run_files (download_images example_locate example_wiki [''Cow.png'', ''./Cow.png'']
      Map.empty) = files t1"
    by (simp add: g5 run_files_def)
  have c: "run_counts (download_images example_locate example_wiki [''Goblin.png'', ''Imp.png'']
      example_cache) = Some (1, 0, 1)"
    by (simp add: h5 run_counts_def s1_def)
  have ct: "run_counts (download_images example_locate example_wiki [''Cow.png'', ''./Cow.png'']
      Map.empty) = Some (1, 1, 0)"
    by (simp add: g5 run_counts_def t1_def)
  from second_run_skips_what_first_run_stored[OF h1 h2 h3 h4 h5]
  obtain s2 where s2: "download_images example_locate example_wiki [''Imp.png'', ''Goblin.png'']
      (files s1) = Inr s2"
    "writes s2 = []" "success_img_dls s2 = 0" "skipped_img_dls s1 + success_img_dls s1 \<le> skipped_img_dls s2"
    "failed_img_dls s2 \<le> failed_img_dls s1"
    "failed_img_dls s1 = 0 \<longrightarrow> skipped_img_dls s2 = card {''Goblin.png'', ''Imp.png''}"
    by (elim exE conjE) (rule that, assumption+)
  have "skipped_img_dls s2 = 2" using s2(6) f(1) by simp
  then have a: "\<exists>s2. download_images example_locate example_wiki [''Imp.png'', ''Goblin.png'']
          (files s1) = Inr s2
        \<and> writes s2 = [] \<and> success_img_dls s2 = 0 \<and> failed_img_dls s2 = 0 \<and> skipped_img_dls s2 = 2"
    using s2 f by auto
  from second_run_skips_what_first_run_stored[OF g1 g2 g3 g4 g5]
  obtain t2 where t2: "download_images example_locate example_wiki [''./Cow.png'', ''Cow.png'']
      (files t1) = Inr t2"
    "writes t2 = []" "success_img_dls t2 = 0" "skipped_img_dls t1 + success_img_dls t1 \<le> skipped_img_dls t2"
    "failed_img_dls t2 \<le> failed_img_dls t1"
    by (elim exE conjE) (rule that, assumption+)
  then have b: "\<exists>s2. download_images example_locate example_wiki [''./Cow.png'', ''Cow.png'']
          (files t1) = Inr s2
        \<and> writes s2 = [] \<and> success_img_dls s2 = 0 \<and> failed_img_dls s2 \<le> 1 \<and> 1 \<le> skipped_img_dls s2"
    using ft by auto
  have e: "run_counts (download_images example_locate example_wiki [''./Cow.png'', ''Cow.png'']
          (files t1)) = Some (0, 0, 2)"
    by (simp add: t1_def download_eval)
  show ?thesis using a b c ct e unfolding r rt by blast
qed

text \<open>Claim C4 as stated fails: with the one name \<^verbatim>\<open>Cow.png\<close>, which the wiki answers
  with 404, and an empty file system, the second run skips nothing and fails once, so
  its skipped count is 0 and not the number of names.\<close>

theorem failed_download_retried:
  "run_counts (download_images example_locate example_wiki [''Cow.png'']
       (run_files (download_images example_locate example_wiki [''Cow.png''] Map.empty)))
     = Some (0, 1, 0)
   \<and> length [''Cow.png''] = 1"
  by (simp add: download_eval)

end
